theory Spec2Isabelle
  imports Complex_Main "HOL-Library.Sublist" "HOL-Library.AList"
begin

section \<open>JavaScript strings\<close>

text \<open>
  A JavaScript string is a sequence of UTF-16 code units. A code unit is modelled by its
  numeric value, so that the non-ASCII sentence terminators and the Unicode white space
  of the source are ordinary elements. \<open>js\<close> embeds an ASCII literal.
\<close>

type_synonym jschar = nat
type_synonym jsstring = "jschar list"

definition js :: "string \<Rightarrow> jsstring" where
  "js s = map of_char s"

text \<open>
  White space as \<open>String.prototype.trim\<close> and the regular expression class \<open>\s\<close> read
  it: TAB, LF, VT, FF, CR, SP, NBSP, the Unicode space separators, LS, PS and the BOM.
\<close>

definition is_space :: "jschar \<Rightarrow> bool" where
  "is_space c = (c = 0x09 \<or> c = 0x0A \<or> c = 0x0B \<or> c = 0x0C \<or> c = 0x0D \<or> c = 0x20
     \<or> c = 0xA0 \<or> c = 0x1680 \<or> (0x2000 \<le> c \<and> c \<le> 0x200A) \<or> c = 0x2028 \<or> c = 0x2029
     \<or> c = 0x202F \<or> c = 0x205F \<or> c = 0x3000 \<or> c = 0xFEFF)"

definition trim :: "jsstring \<Rightarrow> jsstring" where
  "trim s = rev (dropWhile is_space (rev (dropWhile is_space s)))"

definition startsWith :: "jsstring \<Rightarrow> jsstring \<Rightarrow> bool" where
  "startsWith s p = (take (length p) s = p)"

definition endsWith :: "jsstring \<Rightarrow> jsstring \<Rightarrow> bool" where
  "endsWith s p = (length p \<le> length s \<and> drop (length s - length p) s = p)"

text \<open>\<open>indexOf\<close> and \<open>lastIndexOf\<close> return \<open>-1\<close> when the pattern does not occur.\<close>

fun indexOf :: "jsstring \<Rightarrow> jsstring \<Rightarrow> int" where
  "indexOf [] p = (if p = [] then 0 else - 1)"
| "indexOf (c # cs) p =
     (if startsWith (c # cs) p then 0
      else (let r = indexOf cs p in if r = - 1 then - 1 else r + 1))"

fun lastIndexOf :: "jsstring \<Rightarrow> jsstring \<Rightarrow> int" where
  "lastIndexOf [] p = (if p = [] then 0 else - 1)"
| "lastIndexOf (c # cs) p =
     (let r = lastIndexOf cs p in
      if r \<noteq> - 1 then r + 1 else if startsWith (c # cs) p then 0 else - 1)"

definition includes_str :: "jsstring \<Rightarrow> jsstring \<Rightarrow> bool" where
  "includes_str s p = (indexOf s p \<noteq> - 1)"

text \<open>
  \<open>substring\<close> clamps both indices to the string and swaps them when they are out of
  order; \<open>slice\<close> with a negative start counts from the end.
\<close>

definition substring :: "jsstring \<Rightarrow> int \<Rightarrow> int \<Rightarrow> jsstring" where
  "substring s a b =
     (let n = int (length s);
          a' = max 0 (min a n);
          b' = max 0 (min b n);
          lo = min a' b';
          hi = max a' b'
      in take (nat (hi - lo)) (drop (nat lo) s))"

definition substring_from :: "jsstring \<Rightarrow> int \<Rightarrow> jsstring" where
  "substring_from s a = substring s a (int (length s))"

definition slice_from :: "jsstring \<Rightarrow> int \<Rightarrow> jsstring" where
  "slice_from s i =
     (if i < 0 then drop (nat (max 0 (int (length s) + i))) s else drop (nat i) s)"

text \<open>\<open>split\<close> at a one-unit separator, and \<open>join\<close>.\<close>

fun split_on :: "jschar \<Rightarrow> jsstring \<Rightarrow> jsstring list" where
  "split_on d [] = [[]]"
| "split_on d (c # cs) =
     (if c = d then [] # split_on d cs
      else (case split_on d cs of [] \<Rightarrow> [[c]] | l # ls \<Rightarrow> (c # l) # ls))"

fun join :: "jsstring \<Rightarrow> jsstring list \<Rightarrow> jsstring" where
  "join sep [] = []"
| "join sep [l] = l"
| "join sep (l # m # ls) = l @ sep @ join sep (m # ls)"

text \<open>\<open>Array.prototype.pop\<close>: the last element (\<open>undefined\<close> on an empty array) and the rest.\<close>

definition pop :: "'a list \<Rightarrow> 'a option \<times> 'a list" where
  "pop xs = (if xs = [] then (None, []) else (Some (last xs), butlast xs))"

text \<open>\<open>x || ''\<close> on a string or \<open>undefined\<close>.\<close>

definition or_empty :: "jsstring option \<Rightarrow> jsstring" where
  "or_empty v = (case v of None \<Rightarrow> [] | Some x \<Rightarrow> x)"

text \<open>The characters of a string that are not white space, in order.\<close>

definition visible :: "jsstring \<Rightarrow> jsstring" where
  "visible s = filter (\<lambda>c. \<not> is_space c) s"

section \<open>Blocks\<close>

datatype BlockType = PARAGRAPH | HEADING | CODE | BLOCKQUOTE | LIST | TABLE | HR | HTML

record MarkdownBlock =
  block_id :: jsstring
  block_type :: BlockType
  content :: jsstring
  html :: jsstring
  startIndex :: nat
  endIndex :: nat
  level :: "nat option"
  language :: "jsstring option"

text \<open>
  What a JavaScript \<open>throw\<close> carries: an \<open>Error\<close> object with its message (a
  \<open>TypeError\<close> is one), or any other value.
\<close>

datatype js_error = JsError jsstring | JsTypeError jsstring | JsThrown

section \<open>The parser\<close>

text \<open>The horizontal-rule pattern \<open>/^[-*_]{3,}$/\<close>.\<close>

definition is_hr :: "jsstring \<Rightarrow> bool" where
  "is_hr t = (3 \<le> length t \<and> list_all (\<lambda>c. c = 0x2D \<or> c = 0x2A \<or> c = 0x5F) t)"

text \<open>
  \<open>splitIntoBlocks\<close>: the loop's variables are the fields of \<open>split_state\<close>; \<open>split_line\<close>
  is the loop body on one line.
\<close>

record split_state =
  blocks :: "jsstring list"
  currentBlock :: "jsstring list"
  inCodeBlock :: bool
  inTable :: bool

definition push_current :: "split_state \<Rightarrow> split_state" where
  "push_current st =
     st\<lparr>blocks := blocks st @ [join (js ''\<newline>'') (currentBlock st)], currentBlock := []\<rparr>"

definition is_table_line :: "jsstring \<Rightarrow> bool" where
  "is_table_line trimmed =
     (includes_str trimmed (js ''|'')
      \<and> (startsWith trimmed (js ''|'') \<or> endsWith trimmed (js ''|'')))"

definition split_line :: "split_state \<Rightarrow> jsstring \<Rightarrow> split_state" where
  "split_line st line =
     (let trimmed = trim line in
      if startsWith trimmed (js ''```'') then
        (if inCodeBlock st then
           (push_current (st\<lparr>currentBlock := currentBlock st @ [line]\<rparr>))\<lparr>inCodeBlock := False\<rparr>
         else
           (let st1 = (if length (currentBlock st) > 0 then push_current st else st)
            in st1\<lparr>currentBlock := currentBlock st1 @ [line], inCodeBlock := True\<rparr>))
      else if inCodeBlock st then st\<lparr>currentBlock := currentBlock st @ [line]\<rparr>
      else if is_table_line trimmed then
        (let st1 = (if \<not> inTable st \<and> length (currentBlock st) > 0 then push_current st else st)
         in st1\<lparr>currentBlock := currentBlock st1 @ [line], inTable := True\<rparr>)
      else
        (let st1 = (if inTable st then (push_current st)\<lparr>inTable := False\<rparr> else st) in
         if trimmed = [] then
           (if length (currentBlock st1) > 0 then push_current st1 else st1)
         else if startsWith trimmed (js ''#'') \<or> is_hr trimmed then
           (let st2 = (if length (currentBlock st1) > 0 then push_current st1 else st1)
            in st2\<lparr>blocks := blocks st2 @ [line]\<rparr>)
         else st1\<lparr>currentBlock := currentBlock st1 @ [line]\<rparr>))"

definition split_init :: split_state where
  "split_init = \<lparr>blocks = [], currentBlock = [], inCodeBlock = False, inTable = False\<rparr>"

definition splitIntoBlocks :: "jsstring \<Rightarrow> jsstring list" where
  "splitIntoBlocks markdown =
     (let lines = split_on 0x0A markdown;
          st = foldl split_line split_init lines;
          st' = (if length (currentBlock st) > 0 then push_current st else st)
      in filter (\<lambda>b. length (trim b) > 0) (blocks st'))"

text \<open>
  \<open>detectBlockType\<close> and the patterns it tries: \<open>/^[-*+]\s/\<close>, \<open>/^\d+\.\s/\<close> and
  \<open>/\|.*\|/\<close>, whose dot matches no line terminator.
\<close>

definition is_digit :: "jschar \<Rightarrow> bool" where
  "is_digit c = (0x30 \<le> c \<and> c \<le> 0x39)"

definition is_word :: "jschar \<Rightarrow> bool" where
  "is_word c = ((0x41 \<le> c \<and> c \<le> 0x5A) \<or> (0x61 \<le> c \<and> c \<le> 0x7A) \<or> is_digit c \<or> c = 0x5F)"

definition is_line_terminator :: "jschar \<Rightarrow> bool" where
  "is_line_terminator c = (c = 0x0A \<or> c = 0x0D \<or> c = 0x2028 \<or> c = 0x2029)"

definition is_bullet_item :: "jsstring \<Rightarrow> bool" where
  "is_bullet_item t =
     (case t of
        a # b # _ \<Rightarrow> (a = 0x2D \<or> a = 0x2A \<or> a = 0x2B) \<and> is_space b
      | _ \<Rightarrow> False)"

definition is_numbered_item :: "jsstring \<Rightarrow> bool" where
  "is_numbered_item t =
     (takeWhile is_digit t \<noteq> []
      \<and> (case dropWhile is_digit t of
            a # b # _ \<Rightarrow> a = 0x2E \<and> is_space b
          | _ \<Rightarrow> False))"

fun pipe_then_pipe :: "jsstring \<Rightarrow> bool" where
  "pipe_then_pipe [] = False"
| "pipe_then_pipe (c # cs) =
     (if c = 0x7C
      then (case dropWhile (\<lambda>d. d \<noteq> 0x7C \<and> \<not> is_line_terminator d) cs of
              d # _ \<Rightarrow> d = 0x7C \<or> pipe_then_pipe cs
            | [] \<Rightarrow> False)
      else pipe_then_pipe cs)"

definition detectBlockType :: "jsstring \<Rightarrow> BlockType" where
  "detectBlockType c =
     (let trimmed = trim c in
      if startsWith trimmed (js ''#'') then HEADING
      else if startsWith trimmed (js ''```'') then CODE
      else if startsWith trimmed (js ''>'') then BLOCKQUOTE
      else if is_bullet_item trimmed \<or> is_numbered_item trimmed then LIST
      else if includes_str trimmed (js ''|'') \<and> pipe_then_pipe trimmed then TABLE
      else if is_hr trimmed then HR
      else if startsWith trimmed (js ''<'') then HTML
      else PARAGRAPH)"

text \<open>\<open>extractLanguage\<close> (\<open>/^```(\w+)/\<close>) and \<open>extractHeadingLevel\<close> (\<open>/^(#{1,6})\s/\<close>).\<close>

definition extractLanguage :: "jsstring \<Rightarrow> jsstring option" where
  "extractLanguage c =
     (if startsWith c (js ''```'') \<and> takeWhile is_word (drop 3 c) \<noteq> []
      then Some (takeWhile is_word (drop 3 c)) else None)"

definition extractHeadingLevel :: "jsstring \<Rightarrow> nat option" where
  "extractHeadingLevel c =
     (let hashes = takeWhile (\<lambda>d. d = 0x23) c in
      if 1 \<le> length hashes \<and> length hashes \<le> 6
         \<and> (case dropWhile (\<lambda>d. d = 0x23) c of d # _ \<Rightarrow> is_space d | [] \<Rightarrow> False)
      then Some (length hashes) else None)"

text \<open>\<open>escapeHtml\<close>, and the decimal numeral of a template literal.\<close>

definition escape_unit :: "jschar \<Rightarrow> jsstring" where
  "escape_unit c =
     (if c = 0x26 then js ''&amp;''
      else if c = 0x3C then js ''&lt;''
      else if c = 0x3E then js ''&gt;''
      else if c = 0x22 then js ''&quot;''
      else if c = 0x27 then js ''&#039;''
      else [c])"

definition escapeHtml :: "jsstring \<Rightarrow> jsstring" where
  "escapeHtml t = concat (map escape_unit t)"

function decimal :: "nat \<Rightarrow> jsstring" where
  "decimal n = (if n < 10 then [0x30 + n] else decimal (n div 10) @ [0x30 + n mod 10])"
  by pat_completeness auto
termination
  by (relation "measure id") auto

declare decimal.simps [simp del]

text \<open>
  The code renderer installed into the markdown converter: highlighted markup when the
  language is known and the highlighter succeeds, the escaped code otherwise. The
  highlighter's language table and its \<open>highlight\<close> are parameters.
\<close>

definition code_renderer ::
  "(jsstring \<Rightarrow> bool) \<Rightarrow> (jsstring \<Rightarrow> jsstring \<Rightarrow> js_error + jsstring)
    \<Rightarrow> jsstring \<Rightarrow> jsstring option \<Rightarrow> jsstring" where
  "code_renderer getLanguage highlight code lang =
     (let plain = js ''<pre><code>'' @ escapeHtml code @ js ''</code></pre>'' in
      case lang of
        None \<Rightarrow> plain
      | Some l \<Rightarrow>
          if l \<noteq> [] \<and> getLanguage l then
            (case highlight code l of
               Inr highlighted \<Rightarrow>
                 js ''<pre><code class=\"hljs language-'' @ l @ js ''\">'' @ highlighted
                   @ js ''</code></pre>''
             | Inl err \<Rightarrow> plain)
          else plain)"

text \<open>
  The markdown converter and the sanitizer are libraries outside the repository; they
  are the fields of \<open>converter\<close>. The conversion is awaited and may reject.
\<close>

record converter =
  marked_parse :: "jsstring \<Rightarrow> js_error + jsstring"
  sanitize :: "jsstring \<Rightarrow> jsstring"

text \<open>\<open>parseBlock\<close>, with the reading of the clock that its id holds.\<close>

definition parseBlock :: "converter \<Rightarrow> nat \<Rightarrow> jsstring \<Rightarrow> nat \<Rightarrow> js_error + MarkdownBlock" where
  "parseBlock cv now c index =
     (let ident = js ''block-'' @ decimal index @ js ''-'' @ decimal now;
          ty = detectBlockType c
      in case marked_parse cv c of
           Inl e \<Rightarrow> Inl e
         | Inr rawHtml \<Rightarrow>
             Inr \<lparr>block_id = ident, block_type = ty, content = c, html = sanitize cv rawHtml,
                  startIndex = index, endIndex = index,
                  level = extractHeadingLevel c, language = extractLanguage c\<rparr>)"

text \<open>
  \<open>parseBlocks\<close>: the loop from index \<open>i\<close>; \<open>clock i\<close> is the time read while block \<open>i\<close> is
  parsed. The first rejection ends the loop and is the result.
\<close>

fun parseBlocks_from ::
  "converter \<Rightarrow> (nat \<Rightarrow> nat) \<Rightarrow> nat \<Rightarrow> jsstring list \<Rightarrow> js_error + MarkdownBlock list" where
  "parseBlocks_from cv clock i [] = Inr []"
| "parseBlocks_from cv clock i (b # bs) =
     (case parseBlock cv (clock i) b i of
        Inl e \<Rightarrow> Inl e
      | Inr block \<Rightarrow>
          (case parseBlocks_from cv clock (i + 1) bs of
             Inl e \<Rightarrow> Inl e
           | Inr results \<Rightarrow> Inr (block # results)))"

definition parseBlocks ::
  "converter \<Rightarrow> (nat \<Rightarrow> nat) \<Rightarrow> jsstring list \<Rightarrow> js_error + MarkdownBlock list" where
  "parseBlocks cv clock bs = parseBlocks_from cv clock 0 bs"

section \<open>The stream processor, first variant: boundary detection\<close>

text \<open>The character class \<open>[.!?\<dots>]\<close> of the sentence pattern, with its three full-width members.\<close>

definition is_terminator :: "jschar \<Rightarrow> bool" where
  "is_terminator c = (c = 0x2E \<or> c = 0x21 \<or> c = 0x3F \<or> c = 0x3002 \<or> c = 0xFF01 \<or> c = 0xFF1F)"

text \<open>
  \<open>buffer.split(/([.!?\<dots>])\s+/)\<close>: the pattern is tried at each position from the end of
  the last match; a match contributes the text before it and its captured terminator, and
  consumes the white space run after the terminator. The first argument is the text since
  the last match.
\<close>

function split_sentences_from :: "jsstring \<Rightarrow> jsstring \<Rightarrow> jsstring list" where
  "split_sentences_from seg [] = [seg]"
| "split_sentences_from seg (c # cs) =
     (if is_terminator c \<and> (case cs of [] \<Rightarrow> False | d # _ \<Rightarrow> is_space d)
      then seg # [c] # split_sentences_from [] (dropWhile is_space cs)
      else split_sentences_from (seg @ [c]) cs)"
  by pat_completeness auto
termination
  by (relation "measure (\<lambda>(seg, s). length s)")
     (auto simp: length_dropWhile_le le_imp_less_Suc)

definition split_sentences :: "jsstring \<Rightarrow> jsstring list" where
  "split_sentences s = split_sentences_from [] s"

text \<open>
  The marker-line loop of \<open>extractCompleteBlocks\<close>: the first line before the last one that
  starts with a hash or a fence, or holds a pipe, ends a block.
\<close>

definition is_marker_line :: "jsstring \<Rightarrow> bool" where
  "is_marker_line l =
     (let line = trim l in
      startsWith line (js ''#'') \<or> startsWith line (js ''```'') \<or> includes_str line (js ''|''))"

function marker_loop :: "jsstring list \<Rightarrow> nat \<Rightarrow> (jsstring list \<times> jsstring) option" where
  "marker_loop lines i =
     (if int i < int (length lines) - 1 then
        (if is_marker_line (lines ! i)
         then Some ([join (js ''\<newline>'') (take (i + 1) lines)],
                    join (js ''\<newline>'') (drop (i + 1) lines))
         else marker_loop lines (i + 1))
      else None)"
  by pat_completeness auto
termination
  by (relation "measure (\<lambda>(lines, i). length lines - i)") auto

declare marker_loop.simps [simp del]

text \<open>
  \<open>extractCompleteBlocks\<close> of the first variant, from the buffer to the returned spans and
  the new buffer.
\<close>

definition marker_branch :: "jsstring \<Rightarrow> jsstring list \<times> jsstring" where
  "marker_branch buffer =
     (case marker_loop (split_on 0x0A buffer) 0 of
        Some r \<Rightarrow> r
      | None \<Rightarrow> ([], buffer))"

definition extractCompleteBlocks_A :: "jsstring \<Rightarrow> jsstring list \<times> jsstring" where
  "extractCompleteBlocks_A buffer =
     (let doubleNewlineIndex = indexOf buffer (js ''\<newline>\<newline>'') in
      if doubleNewlineIndex \<noteq> - 1 then
        (let completeContent = substring buffer 0 doubleNewlineIndex;
             buffer' = substring_from buffer (doubleNewlineIndex + 2)
         in (if trim completeContent \<noteq> [] then [completeContent] else [], buffer'))
      else
        (let sentences = split_sentences buffer in
         if length sentences > 2 then
           (let (l, sentences1) = pop sentences;
                lastSentence = or_empty l;
                (p, sentences2) = pop sentences1;
                lastPunctuation = or_empty p;
                buffer' = lastSentence;
                completeContent = concat sentences2
            in if lastPunctuation \<noteq> [] then ([completeContent @ lastPunctuation], buffer')
               else marker_branch buffer')
         else marker_branch buffer))"

section \<open>The incremental renderer\<close>

text \<open>
  A DOM element made by \<open>renderBlock\<close>: \<open>eid\<close> is the identity of the object, so that a
  reference held in the \<open>renderedBlocks\<close> map names one element of the document.
\<close>

record element =
  eid :: nat
  className :: jsstring
  dataset_blockId :: jsstring
  innerHTML :: jsstring

text \<open>
  The two callbacks the renderer hands to \<open>requestAnimationFrame\<close>: the render pass of
  \<open>scheduleRender\<close> and the scroll of \<open>scrollToBottom\<close>.
\<close>

datatype frame_callback = RenderCallback | ScrollCallback

text \<open>
  The renderer's fields, the two configuration values it reads and the children of its
  container. The last four fields are the host's side: the counters that name new
  elements and animation-frame handles, the animation-frame requests not yet run or
  cancelled, and the delays of the timeouts not yet fired. \<open>renderedBlocks\<close> is a
  \<open>Map\<close> in insertion order, from a block id to the element rendered for it.
\<close>

record IncrementalRenderer =
  container :: "element list"
  chunkSize :: int
  debounceMs :: real
  renderedBlocks :: "(jsstring \<times> nat) list"
  rafId :: "nat option"
  pendingBlocks :: "MarkdownBlock list"
  isRendering :: bool
  lastTempBlockId :: "jsstring option"
  nextElement :: nat
  nextHandle :: nat
  frameRequests :: "(nat \<times> frame_callback) list"
  timeouts :: "real list"

definition new_renderer :: "int \<Rightarrow> real \<Rightarrow> IncrementalRenderer" where
  "new_renderer cs db =
     \<lparr>container = [], chunkSize = cs, debounceMs = db, renderedBlocks = [], rafId = None,
      pendingBlocks = [], isRendering = False, lastTempBlockId = None,
      nextElement = 0, nextHandle = 1, frameRequests = [], timeouts = []\<rparr>"

definition type_name :: "BlockType \<Rightarrow> jsstring" where
  "type_name t =
     (case t of
        PARAGRAPH \<Rightarrow> js ''paragraph'' | HEADING \<Rightarrow> js ''heading'' | CODE \<Rightarrow> js ''code''
      | BLOCKQUOTE \<Rightarrow> js ''blockquote'' | LIST \<Rightarrow> js ''list'' | TABLE \<Rightarrow> js ''table''
      | HR \<Rightarrow> js ''hr'' | HTML \<Rightarrow> js ''html'')"

definition renderBlock :: "MarkdownBlock \<Rightarrow> nat \<Rightarrow> element" where
  "renderBlock block fresh =
     \<lparr>eid = fresh,
      className = js ''markdown-block markdown-block-'' @ type_name (block_type block),
      dataset_blockId = block_id block,
      innerHTML = html block\<rparr>"

definition is_temp :: "jsstring \<Rightarrow> bool" where
  "is_temp ident = startsWith ident (js ''__temp__'')"

text \<open>\<open>element.remove()\<close>, on the list of children that may hold the element.\<close>

definition remove_element :: "nat \<Rightarrow> element list \<Rightarrow> element list" where
  "remove_element e xs = filter (\<lambda>x. eid x \<noteq> e) xs"

definition scheduleRender :: "IncrementalRenderer \<Rightarrow> IncrementalRenderer" where
  "scheduleRender r =
     (if rafId r \<noteq> None then r
      else r\<lparr>rafId := Some (nextHandle r),
             frameRequests := frameRequests r @ [(nextHandle r, RenderCallback)],
             nextHandle := nextHandle r + 1\<rparr>)"

definition appendBlocks :: "MarkdownBlock list \<Rightarrow> IncrementalRenderer \<Rightarrow> IncrementalRenderer" where
  "appendBlocks bs r =
     (let r1 =
        (case (lastTempBlockId r, bs) of
           (Some t, b # _) \<Rightarrow>
             if t \<noteq> [] then
               (case map_of (renderedBlocks r) t of
                  Some tempElement \<Rightarrow>
                    if \<not> is_temp (block_id b) then
                      r\<lparr>container := remove_element tempElement (container r),
                        renderedBlocks := AList.delete t (renderedBlocks r),
                        lastTempBlockId := None\<rparr>
                    else r
                | None \<Rightarrow> r)
             else r
         | _ \<Rightarrow> r)
      in scheduleRender (r1\<lparr>pendingBlocks := pendingBlocks r1 @ bs\<rparr>))"

text \<open>
  The body of the loop over the chunk in \<open>renderPendingBlocks\<close>. The second component is
  the document fragment: an old provisional element is removed from wherever it is, the
  container or the fragment.
\<close>

definition render_one ::
  "IncrementalRenderer \<times> element list \<Rightarrow> MarkdownBlock
    \<Rightarrow> IncrementalRenderer \<times> element list" where
  "render_one rf block =
     (let (r, fragment) = rf;
          (r1, fragment1) =
            (if is_temp (block_id block) then
               (let (ra, fa) =
                  (case lastTempBlockId r of
                     Some t \<Rightarrow>
                       if t \<noteq> [] then
                         (case map_of (renderedBlocks r) t of
                            Some oldTemp \<Rightarrow>
                              (r\<lparr>container := remove_element oldTemp (container r),
                                 renderedBlocks := AList.delete t (renderedBlocks r)\<rparr>,
                               remove_element oldTemp fragment)
                          | None \<Rightarrow> (r, fragment))
                       else (r, fragment)
                   | None \<Rightarrow> (r, fragment))
                in (ra\<lparr>lastTempBlockId := Some (block_id block)\<rparr>, fa))
             else (r, fragment));
          element = renderBlock block (nextElement r1)
      in (r1\<lparr>renderedBlocks := AList.update (block_id block) (eid element) (renderedBlocks r1),
             nextElement := nextElement r1 + 1\<rparr>,
          fragment1 @ [element]))"

definition scrollToBottom :: "IncrementalRenderer \<Rightarrow> IncrementalRenderer" where
  "scrollToBottom r =
     r\<lparr>frameRequests := frameRequests r @ [(nextHandle r, ScrollCallback)],
       nextHandle := nextHandle r + 1\<rparr>"

text \<open>
  \<open>renderPendingBlocks\<close>; \<open>renderTime\<close> is the difference of the two clock readings, in
  milliseconds. \<open>splice(0, chunkSize)\<close> removes no element when the count is negative.
\<close>

definition renderPendingBlocks :: "real \<Rightarrow> IncrementalRenderer \<Rightarrow> IncrementalRenderer" where
  "renderPendingBlocks renderTime r =
     (if isRendering r \<or> length (pendingBlocks r) = 0 then r
      else
        (let r1 = r\<lparr>isRendering := True\<rparr>;
             n = nat (max 0 (chunkSize r1));
             chunk = take n (pendingBlocks r1);
             r2 = r1\<lparr>pendingBlocks := drop n (pendingBlocks r1)\<rparr>;
             (r3, fragment) = foldl render_one (r2, []) chunk;
             r4 = r3\<lparr>container := container r3 @ fragment\<rparr>;
             r5 = scrollToBottom r4;
             r6 = r5\<lparr>isRendering := False\<rparr>
         in if length (pendingBlocks r6) > 0 then
              (let delay = (if renderTime > 16 then min (debounceMs r6) 8 else 0)
               in r6\<lparr>timeouts := timeouts r6 @ [delay]\<rparr>)
            else r6))"

definition updateBlock :: "jsstring \<Rightarrow> jsstring \<Rightarrow> IncrementalRenderer \<Rightarrow> IncrementalRenderer" where
  "updateBlock blockId newHtml r =
     (case map_of (renderedBlocks r) blockId of
        None \<Rightarrow> r
      | Some e \<Rightarrow>
          r\<lparr>container :=
              map (\<lambda>x. if eid x = e \<and> innerHTML x \<noteq> newHtml then x\<lparr>innerHTML := newHtml\<rparr> else x)
                (container r)\<rparr>)"

definition clear_renderer :: "IncrementalRenderer \<Rightarrow> IncrementalRenderer" where
  "clear_renderer r =
     (let r1 =
        (case rafId r of
           Some h \<Rightarrow> r\<lparr>frameRequests := filter (\<lambda>q. fst q \<noteq> h) (frameRequests r), rafId := None\<rparr>
         | None \<Rightarrow> r)
      in r1\<lparr>pendingBlocks := [], renderedBlocks := [], container := []\<rparr>)"

text \<open>
  The host runs a requested animation-frame callback (the one of \<open>scheduleRender\<close> resets
  \<open>rafId\<close> and renders), and fires a timeout (whose callback is \<open>scheduleRender\<close>). A handle
  that is not requested, and a timeout that is not pending, run nothing.
\<close>

definition run_frame :: "nat \<Rightarrow> real \<Rightarrow> IncrementalRenderer \<Rightarrow> IncrementalRenderer" where
  "run_frame h renderTime r =
     (case map_of (frameRequests r) h of
        None \<Rightarrow> r
      | Some cb \<Rightarrow>
          (let r1 = r\<lparr>frameRequests := filter (\<lambda>q. fst q \<noteq> h) (frameRequests r)\<rparr>
           in case cb of
                RenderCallback \<Rightarrow> renderPendingBlocks renderTime (r1\<lparr>rafId := None\<rparr>)
              | ScrollCallback \<Rightarrow> r1))"

definition fire_timeout :: "nat \<Rightarrow> IncrementalRenderer \<Rightarrow> IncrementalRenderer" where
  "fire_timeout i r =
     (if i < length (timeouts r)
      then scheduleRender (r\<lparr>timeouts := take i (timeouts r) @ drop (i + 1) (timeouts r)\<rparr>)
      else r)"

text \<open>What can happen to a renderer, and the run of a list of such events.\<close>

datatype renderer_event =
    AppendBlocks "MarkdownBlock list"
  | Frame nat real
  | Timeout nat
  | Clear

fun renderer_step :: "IncrementalRenderer \<Rightarrow> renderer_event \<Rightarrow> IncrementalRenderer" where
  "renderer_step r (AppendBlocks bs) = appendBlocks bs r"
| "renderer_step r (Frame h renderTime) = run_frame h renderTime r"
| "renderer_step r (Timeout i) = fire_timeout i r"
| "renderer_step r Clear = clear_renderer r"

definition renderer_run :: "int \<Rightarrow> real \<Rightarrow> renderer_event list \<Rightarrow> IncrementalRenderer" where
  "renderer_run cs db evs = foldl renderer_step (new_renderer cs db) evs"

text \<open>
  A host that runs the requested render frame when there is one, and else fires the first
  pending timeout; the list holds the durations of the render passes.
\<close>

definition drain_step :: "real \<Rightarrow> IncrementalRenderer \<Rightarrow> IncrementalRenderer" where
  "drain_step t r = (case rafId r of Some h \<Rightarrow> run_frame h t r | None \<Rightarrow> fire_timeout 0 r)"

definition drain :: "real list \<Rightarrow> IncrementalRenderer \<Rightarrow> IncrementalRenderer" where
  "drain ts r = foldl (\<lambda>r t. drain_step t r) r ts"

section \<open>The stream processor\<close>

text \<open>
  The fields of the first variant; the second variant adds \<open>lastProcessedIndex\<close>. The
  parser object of the source has no state of its own: its libraries are the \<open>converter\<close>
  the operations take.
\<close>

record StreamProcessor =
  buffer :: jsstring
  processedBlocks :: "MarkdownBlock list"
  renderer :: IncrementalRenderer

record StreamProcessorB = StreamProcessor +
  lastProcessedIndex :: nat

definition new_processor :: "int \<Rightarrow> real \<Rightarrow> StreamProcessor" where
  "new_processor cs db = \<lparr>buffer = [], processedBlocks = [], renderer = new_renderer cs db\<rparr>"

definition new_processor_B :: "int \<Rightarrow> real \<Rightarrow> StreamProcessorB" where
  "new_processor_B cs db =
     \<lparr>buffer = [], processedBlocks = [], renderer = new_renderer cs db, lastProcessedIndex = 0\<rparr>"

text \<open>
  \<open>append\<close> and \<open>finish\<close> are asynchronous: they run to the \<open>await\<close> of the conversion,
  and continue when it has resolved. \<open>deliver\<close> is the continuation, the same in both
  operations and both variants: it reads \<open>processedBlocks\<close> and the renderer when it runs.
\<close>

definition deliver ::
  "MarkdownBlock list \<Rightarrow> 'a StreamProcessor_scheme \<Rightarrow> 'a StreamProcessor_scheme" where
  "deliver parsedBlocks p =
     p\<lparr>processedBlocks := processedBlocks p @ parsedBlocks,
       renderer := appendBlocks parsedBlocks (renderer p)\<rparr>"

text \<open>
  The first variant's \<open>append\<close>: \<open>append_begin_A\<close> is the part before the conversion, with
  the spans it sends; \<open>append_A\<close> is the whole call when nothing else runs in between. The
  first component of the result is the reason of the rejection, if the call rejects.
\<close>

definition append_begin_A :: "jsstring \<Rightarrow> StreamProcessor \<Rightarrow> jsstring list \<times> StreamProcessor" where
  "append_begin_A chunk p =
     (let (newBlocks, b) = extractCompleteBlocks_A (buffer p @ chunk)
      in (newBlocks, p\<lparr>buffer := b\<rparr>))"

definition append_A ::
  "converter \<Rightarrow> (nat \<Rightarrow> nat) \<Rightarrow> jsstring \<Rightarrow> StreamProcessor \<Rightarrow> js_error option \<times> StreamProcessor" where
  "append_A cv clock chunk p =
     (let (newBlocks, p1) = append_begin_A chunk p in
      if length newBlocks > 0 then
        (case parseBlocks cv clock newBlocks of
           Inl e \<Rightarrow> (Some e, p1)
         | Inr parsedBlocks \<Rightarrow> (None, deliver parsedBlocks p1))
      else (None, p1))"

text \<open>\<open>finish\<close>, the same text in both variants.\<close>

definition finish ::
  "converter \<Rightarrow> (nat \<Rightarrow> nat) \<Rightarrow> 'a StreamProcessor_scheme
    \<Rightarrow> js_error option \<times> 'a StreamProcessor_scheme" where
  "finish cv clock p =
     (if length (trim (buffer p)) > 0 then
        (let remainingBlocks = splitIntoBlocks (buffer p) in
         if length remainingBlocks > 0 then
           (case parseBlocks cv clock remainingBlocks of
              Inl e \<Rightarrow> (Some e, p)
            | Inr parsedBlocks \<Rightarrow> (None, (deliver parsedBlocks p)\<lparr>buffer := []\<rparr>))
         else (None, p\<lparr>buffer := []\<rparr>))
      else (None, p))"

text \<open>
  The two parts of \<open>finish\<close>: the blocks it sends to the converter, if the buffer is not
  blank, and the continuation after the \<open>await\<close>, which reads the buffer no more and
  empties it.
\<close>

definition finish_begin :: "'a StreamProcessor_scheme \<Rightarrow> jsstring list option" where
  "finish_begin p =
     (if length (trim (buffer p)) > 0 then Some (splitIntoBlocks (buffer p)) else None)"

definition finish_end ::
  "MarkdownBlock list \<Rightarrow> 'a StreamProcessor_scheme \<Rightarrow> 'a StreamProcessor_scheme" where
  "finish_end parsedBlocks p = (deliver parsedBlocks p)\<lparr>buffer := []\<rparr>"

definition clear_A :: "StreamProcessor \<Rightarrow> StreamProcessor" where
  "clear_A p = p\<lparr>buffer := [], processedBlocks := [], renderer := clear_renderer (renderer p)\<rparr>"

text \<open>
  The second variant. \<open>isBlockComplete\<close> receives \<open>blocks[blocks.length - 1]\<close>, which is
  \<open>undefined\<close> when there is no block; its first statement calls \<open>trim\<close> on it and throws
  a \<open>TypeError\<close> then. \<open>count_fences\<close> is the number of matches of \<open>/```/g\<close>.
\<close>

fun count_fences :: "jsstring \<Rightarrow> nat" where
  "count_fences (a # b # c # rest) =
     (if a = 0x60 \<and> b = 0x60 \<and> c = 0x60 then 1 + count_fences rest
      else count_fences (b # c # rest))"
| "count_fences _ = 0"

definition isBlockComplete :: "jsstring option \<Rightarrow> jsstring \<Rightarrow> js_error + bool" where
  "isBlockComplete blk fullBuffer =
     (case blk of
        None \<Rightarrow> Inl (JsTypeError (js ''Cannot read properties of undefined (reading 'trim')''))
      | Some block \<Rightarrow>
          (let trimmed = trim block in
           if startsWith trimmed (js ''```'') then
             (let n = count_fences trimmed in Inr (if n > 0 then n \<ge> 2 else False))
           else if includes_str trimmed (js ''|'') then
             (let blockEndIndex = lastIndexOf fullBuffer block + int (length block);
                  remaining = trim (slice_from fullBuffer blockEndIndex)
              in Inr (remaining = [] \<or> startsWith remaining (js ''\<newline>\<newline>'')))
           else Inr True))"

definition extractCompleteBlocks_B :: "jsstring \<Rightarrow> js_error + jsstring list \<times> jsstring" where
  "extractCompleteBlocks_B b =
     (let blocks = splitIntoBlocks b;
          lastBlock = (if blocks = [] then None else Some (last blocks))
      in case isBlockComplete lastBlock b of
           Inl e \<Rightarrow> Inl e
         | Inr isLastBlockComplete \<Rightarrow>
             if \<not> isLastBlockComplete \<and> length blocks > 0 then
               (let (popped, blocks') = pop blocks;
                    incompleteBlock = (case popped of Some x \<Rightarrow> x | None \<Rightarrow> js ''undefined'');
                    lastIndex = lastIndexOf b incompleteBlock
                in Inr (blocks', slice_from b lastIndex))
             else Inr (blocks, []))"

definition append_begin_B ::
  "jsstring \<Rightarrow> StreamProcessorB
    \<Rightarrow> js_error \<times> StreamProcessorB + jsstring list \<times> StreamProcessorB" where
  "append_begin_B chunk p =
     (case extractCompleteBlocks_B (buffer p @ chunk) of
        Inl e \<Rightarrow> Inl (e, p\<lparr>buffer := buffer p @ chunk\<rparr>)
      | Inr (newBlocks, b) \<Rightarrow> Inr (newBlocks, p\<lparr>buffer := b\<rparr>))"

definition append_B ::
  "converter \<Rightarrow> (nat \<Rightarrow> nat) \<Rightarrow> jsstring \<Rightarrow> StreamProcessorB \<Rightarrow> js_error option \<times> StreamProcessorB" where
  "append_B cv clock chunk p =
     (case append_begin_B chunk p of
        Inl (e, p1) \<Rightarrow> (Some e, p1)
      | Inr (newBlocks, p1) \<Rightarrow>
          if length newBlocks > 0 then
            (case parseBlocks cv clock newBlocks of
               Inl e \<Rightarrow> (Some e, p1)
             | Inr parsedBlocks \<Rightarrow> (None, deliver parsedBlocks p1))
          else (None, p1))"

definition clear_B :: "StreamProcessorB \<Rightarrow> StreamProcessorB" where
  "clear_B p =
     p\<lparr>buffer := [], lastProcessedIndex := 0, processedBlocks := [],
       renderer := clear_renderer (renderer p)\<rparr>"

text \<open>
  A producer that awaits each call before the next, as the demo page does: a run of whole
  calls. \<open>clock k\<close> is the clock during call \<open>k\<close>. A rejection ends the run. Calls that
  overlap are not such runs: they are compositions of the parts \<open>append_begin_A\<close>,
  \<open>append_begin_B\<close>, \<open>finish_begin\<close>, \<open>deliver\<close> and \<open>finish_end\<close>.
\<close>

datatype call = Append jsstring | Finish

definition call_A ::
  "converter \<Rightarrow> (nat \<Rightarrow> nat) \<Rightarrow> call \<Rightarrow> StreamProcessor \<Rightarrow> js_error option \<times> StreamProcessor" where
  "call_A cv clock c p =
     (case c of Append chunk \<Rightarrow> append_A cv clock chunk p | Finish \<Rightarrow> finish cv clock p)"

definition call_B ::
  "converter \<Rightarrow> (nat \<Rightarrow> nat) \<Rightarrow> call \<Rightarrow> StreamProcessorB \<Rightarrow> js_error option \<times> StreamProcessorB" where
  "call_B cv clock c p =
     (case c of Append chunk \<Rightarrow> append_B cv clock chunk p | Finish \<Rightarrow> finish cv clock p)"

fun calls_A ::
  "converter \<Rightarrow> (nat \<Rightarrow> nat \<Rightarrow> nat) \<Rightarrow> nat \<Rightarrow> call list \<Rightarrow> StreamProcessor
    \<Rightarrow> js_error option \<times> StreamProcessor" where
  "calls_A cv clock k [] p = (None, p)"
| "calls_A cv clock k (c # cs) p =
     (case call_A cv (clock k) c p of
        (Some e, p') \<Rightarrow> (Some e, p')
      | (None, p') \<Rightarrow> calls_A cv clock (k + 1) cs p')"

fun calls_B ::
  "converter \<Rightarrow> (nat \<Rightarrow> nat \<Rightarrow> nat) \<Rightarrow> nat \<Rightarrow> call list \<Rightarrow> StreamProcessorB
    \<Rightarrow> js_error option \<times> StreamProcessorB" where
  "calls_B cv clock k [] p = (None, p)"
| "calls_B cv clock k (c # cs) p =
     (case call_B cv (clock k) c p of
        (Some e, p') \<Rightarrow> (Some e, p')
      | (None, p') \<Rightarrow> calls_B cv clock (k + 1) cs p')"

text \<open>The text appended by a list of calls, and the text of the blocks processed so far.\<close>

fun appended :: "call list \<Rightarrow> jsstring" where
  "appended [] = []"
| "appended (Append chunk # cs) = chunk @ appended cs"
| "appended (Finish # cs) = appended cs"

definition sent :: "'a StreamProcessor_scheme \<Rightarrow> jsstring" where
  "sent p = concat (map content (processedBlocks p))"

section \<open>The conversion worker\<close>

text \<open>
  The worker's message handler: a \<open>parse\<close> request is answered by one \<open>parse_result\<close>
  message with all the results, or, when anything in the loop throws, by one \<open>error\<close>
  message; a message of another type is not answered.
\<close>

datatype worker_request = ParseRequest "MarkdownBlock list" | OtherRequest

datatype worker_reply = ParseResult "MarkdownBlock list" | ErrorReply jsstring

definition error_message :: "js_error \<Rightarrow> jsstring" where
  "error_message e =
     (case e of
        JsError m \<Rightarrow> m
      | JsTypeError m \<Rightarrow> m
      | JsThrown \<Rightarrow> js ''Unknown error'')"

fun worker_loop :: "converter \<Rightarrow> MarkdownBlock list \<Rightarrow> js_error + MarkdownBlock list" where
  "worker_loop cv [] = Inr []"
| "worker_loop cv (block # rest) =
     (case marked_parse cv (content block) of
        Inl e \<Rightarrow> Inl e
      | Inr rawHtml \<Rightarrow>
          (case worker_loop cv rest of
             Inl e \<Rightarrow> Inl e
           | Inr results \<Rightarrow> Inr (block\<lparr>html := sanitize cv rawHtml\<rparr> # results)))"

definition worker_onmessage :: "converter \<Rightarrow> worker_request \<Rightarrow> worker_reply option" where
  "worker_onmessage cv msg =
     (case msg of
        ParseRequest bs \<Rightarrow>
          (case worker_loop cv bs of
             Inr results \<Rightarrow> Some (ParseResult results)
           | Inl e \<Rightarrow> Some (ErrorReply (error_message e)))
      | OtherRequest \<Rightarrow> None)"

text \<open>
  Two converters for concrete runs: one that returns the text it is given, and one that
  rejects the text \<open>bad\<close> and returns every other text.
\<close>

definition plain_converter :: converter where
  "plain_converter = \<lparr>marked_parse = Inr, sanitize = id\<rparr>"

definition rejecting :: "jsstring \<Rightarrow> jsstring \<Rightarrow> js_error + jsstring" where
  "rejecting bad t = (if t = bad then Inl (JsError (js ''rejected'')) else Inr t)"

definition rejecting_converter :: "jsstring \<Rightarrow> converter" where
  "rejecting_converter bad = \<lparr>marked_parse = rejecting bad, sanitize = id\<rparr>"

section \<open>Notions for the properties\<close>

text \<open>
  The elements that \<open>renderBlock\<close> makes for a chunk of blocks when the first of them is
  given the identity \<open>first\<close>.
\<close>

definition rendered_batch :: "MarkdownBlock list \<Rightarrow> nat \<Rightarrow> element list" where
  "rendered_batch chunk first =
     map (\<lambda>(b, i). renderBlock b i) (zip chunk [first ..< first + length chunk])"

text \<open>The elements, and the ids, of provisional blocks.\<close>

definition provisional_elements :: "element list \<Rightarrow> element list" where
  "provisional_elements xs = filter (\<lambda>e. is_temp (dataset_blockId e)) xs"

definition provisional_ids :: "(jsstring \<times> nat) list \<Rightarrow> jsstring list" where
  "provisional_ids m = filter is_temp (map fst m)"

text \<open>
  The invariant of the renderer, with the document fragment of a pass in progress: the
  keys of the map and the identities of the elements are distinct, every element was made
  before the next one, a provisional key is the last provisional id, and a provisional
  element is the one the map holds for its id.
\<close>

definition renderer_inv :: "IncrementalRenderer \<Rightarrow> element list \<Rightarrow> bool" where
  "renderer_inv r f \<longleftrightarrow>
     distinct (map fst (renderedBlocks r))
     \<and> distinct (map eid (container r @ f))
     \<and> (\<forall>e \<in> set (container r @ f). eid e < nextElement r)
     \<and> (\<forall>k \<in> set (map fst (renderedBlocks r)). is_temp k \<longrightarrow> lastTempBlockId r = Some k)
     \<and> (\<forall>e \<in> set (container r @ f). is_temp (dataset_blockId e) \<longrightarrow>
           map_of (renderedBlocks r) (dataset_blockId e) = Some (eid e))"

text \<open>
  A second invariant of the renderer: the last provisional id is a provisional id, and
  an entry of the map names an element made before the next one, rendered for its key.
\<close>

definition renderer_inv3 :: "IncrementalRenderer \<Rightarrow> element list \<Rightarrow> bool" where
  "renderer_inv3 r f \<longleftrightarrow>
     (case lastTempBlockId r of None \<Rightarrow> True | Some t \<Rightarrow> is_temp t)
     \<and> (\<forall>(k, e) \<in> set (renderedBlocks r). e < nextElement r
           \<and> (\<forall>x \<in> set (container r @ f). eid x = e \<longrightarrow> dataset_blockId x = k))"

text \<open>
  \<open>keeps r r'\<close>: the container of \<open>r'\<close> is a subsequence of the container of \<open>r\<close>,
  followed by elements made after \<open>r\<close>.
\<close>

definition keeps :: "IncrementalRenderer \<Rightarrow> IncrementalRenderer \<Rightarrow> bool" where
  "keeps r r' \<longleftrightarrow> (\<exists>kept new. container r' = kept @ new \<and> subseq kept (container r)
      \<and> (\<forall>e \<in> set new. nextElement r \<le> eid e))"

text \<open>
  \<open>layout bs t\<close>: the blocks \<open>bs\<close> lie in the text \<open>t\<close> in their order, without overlap,
  and only white space lies before, between and after them.
\<close>

fun layout :: "jsstring list \<Rightarrow> jsstring \<Rightarrow> bool" where
  "layout [] t = (visible t = [])"
| "layout (b # bs) t = (\<exists>g rest. t = g @ b @ rest \<and> visible g = [] \<and> layout bs rest)"

text \<open>
  The invariant of the loop of \<open>splitIntoBlocks\<close> after the lines \<open>ls\<close>: the blocks lie
  in the text of these lines, and the lines of the current block end it.
\<close>

definition split_inv :: "jsstring list \<Rightarrow> jsstring list \<Rightarrow> jsstring list \<Rightarrow> bool" where
  "split_inv bs cur ls \<longleftrightarrow>
     (if cur = [] then layout bs (join [10] ls)
      else ls \<noteq> [] \<and> (\<exists>pre. join [10] ls = pre @ join [10] cur \<and> layout bs pre))"

definition split_ok :: "split_state \<Rightarrow> jsstring list \<Rightarrow> bool" where
  "split_ok st ls = split_inv (blocks st) (currentBlock st) ls"

text \<open>
  The sentence branch of the first variant joins all sentences but the last into one
  span: this is what it does with a buffer that holds no blank line and two or more
  sentence ends. \<open>buffers_A b cs\<close> are the buffers that the appends of the calls \<open>cs\<close>
  examine, from the buffer \<open>b\<close>.
\<close>

definition joins_sentences :: "jsstring \<Rightarrow> bool" where
  "joins_sentences b \<longleftrightarrow> indexOf b (js ''\<newline>\<newline>'') = - 1 \<and> length (split_sentences b) > 3"

fun buffers_A :: "jsstring \<Rightarrow> call list \<Rightarrow> jsstring list" where
  "buffers_A b [] = []"
| "buffers_A b (Append chunk # cs) =
     (b @ chunk) # buffers_A (snd (extractCompleteBlocks_A (b @ chunk))) cs"
| "buffers_A b (Finish # cs) = buffers_A (if trim b = [] then b else []) cs"

text \<open>
  The renderer that was handed the blocks \<open>bs\<close> and in which no frame has run yet; a
  renderer whose pending blocks the host can drain; and a processor whose renderer was
  handed its processed blocks.
\<close>

definition awaiting :: "int \<Rightarrow> real \<Rightarrow> MarkdownBlock list \<Rightarrow> IncrementalRenderer" where
  "awaiting cs db bs =
     (if bs = [] then new_renderer cs db
      else (new_renderer cs db)\<lparr>pendingBlocks := bs, rafId := Some 1,
             frameRequests := [(1, RenderCallback)], nextHandle := 2\<rparr>)"



text \<open>The fence of a code block: three backticks.\<close>

definition fence :: jsstring where
  "fence = [96, 96, 96]"

text \<open>\<open>in_step p p'\<close>: the same blocks were added to the processed blocks and to the pending queue.\<close>

definition in_step :: "'a StreamProcessor_scheme \<Rightarrow> 'a StreamProcessor_scheme \<Rightarrow> bool" where
  "in_step p p' \<longleftrightarrow> (\<exists>bs. processedBlocks p' = processedBlocks p @ bs
      \<and> pendingBlocks (renderer p') = pendingBlocks (renderer p) @ bs)"

text \<open>A block, a clock that stands still, and the clocks of a run, for concrete runs.\<close>

definition sample_block :: "jsstring \<Rightarrow> jsstring \<Rightarrow> MarkdownBlock" where
  "sample_block ident t =
     \<lparr>block_id = ident, block_type = PARAGRAPH, content = t, html = t,
      startIndex = 0, endIndex = 0, level = None, language = None\<rparr>"

definition sample_blocks :: "MarkdownBlock list" where
  "sample_blocks = [sample_block (js ''a'') (js ''x''), sample_block (js ''b'') (js ''y''),
                    sample_block (js ''c'') (js ''z'')]"

definition still_clock :: "nat \<Rightarrow> nat" where
  "still_clock i = 0"

definition still_clocks :: "nat \<Rightarrow> nat \<Rightarrow> nat" where
  "still_clocks k = still_clock"

section \<open>Properties\<close>

subsection \<open>Strings\<close>

lemma visible_simps [simp]:
  "visible [] = []"
  "visible (s @ t) = visible s @ visible t"
  "visible (c # s) = (if is_space c then visible s else c # visible s)"
  by (simp_all add: visible_def)

lemma is_space_newline [simp]: "is_space 10"
  by (simp add: is_space_def)

lemma visible_concat: "visible (concat xs) = concat (map visible xs)"
  by (induction xs) simp_all

lemma visible_empty_iff: "visible s = [] \<longleftrightarrow> list_all is_space s"
  by (induction s) (simp_all add: visible_def)

lemma dropWhile_all_iff: "list_all P (dropWhile P s) \<longleftrightarrow> list_all P s"
  by (induction s) simp_all

lemma trim_empty_iff: "trim s = [] \<longleftrightarrow> visible s = []"
proof -
  have "trim s = [] \<longleftrightarrow> list_all is_space (dropWhile is_space s)"
    by (simp add: trim_def list_all_iff)
  then show ?thesis
    by (simp add: dropWhile_all_iff visible_empty_iff)
qed

lemma length_visible_le: "length (visible s) \<le> length s"
  by (simp add: visible_def)

lemma join_snoc: "xs \<noteq> [] \<Longrightarrow> join sep (xs @ [l]) = join sep xs @ sep @ l"
  by (induction sep xs rule: join.induct) auto

lemma join_append:
  "xs \<noteq> [] \<Longrightarrow> ys \<noteq> [] \<Longrightarrow> join sep (xs @ ys) = join sep xs @ sep @ join sep ys"
  by (induction sep xs rule: join.induct) (auto, (cases ys; simp))

lemma split_on_nonempty [simp]: "split_on d s \<noteq> []"
  by (induction s) (auto split: list.splits)

lemma join_split_on [simp]: "join [d] (split_on d s) = s"
proof (induction s)
  case Nil
  show ?case by simp
next
  case (Cons c s)
  show ?case
  proof (cases "split_on d s")
    case Nil
    then show ?thesis using split_on_nonempty[of d s] by simp
  next
    case (Cons l ls)
    with Cons.IH show ?thesis by (cases ls) auto
  qed
qed

lemma visible_join_newline: "visible (join [10] ls) = visible (concat ls)"
  by (induction "[10::nat]" ls rule: join.induct) simp_all

lemma length_concat_le_join: "length (concat ls) \<le> length (join sep ls)"
  by (induction sep ls rule: join.induct) simp_all

lemma js_newline [simp]: "js ''\<newline>'' = [10]"
  by (simp add: js_def)

lemma js_newline2 [simp]: "js ''\<newline>\<newline>'' = [10, 10]"
  by (simp add: js_def)

lemma startsWith_iff: "startsWith s p \<longleftrightarrow> (\<exists>t. s = p @ t)"
  unfolding startsWith_def
  by (metis append_eq_conv_conj append_take_drop_id)

lemma indexOf_found:
  "indexOf s p \<noteq> - 1 \<Longrightarrow> \<exists>n. indexOf s p = int n \<and> (\<exists>t. drop n s = p @ t) \<and> n \<le> length s"
proof (induction s)
  case Nil
  then show ?case by (auto split: if_splits)
next
  case (Cons c s)
  show ?case
  proof (cases "startsWith (c # s) p")
    case True
    then show ?thesis by (auto simp: startsWith_iff intro!: exI[of _ 0])
  next
    case False
    with Cons.prems have "indexOf s p \<noteq> - 1" and eq: "indexOf (c # s) p = indexOf s p + 1"
      by (auto simp: Let_def split: if_splits)
    with Cons.IH obtain n t where "indexOf s p = int n" "drop n s = p @ t" "n \<le> length s"
      by auto
    with eq show ?thesis by (auto intro!: exI[of _ "Suc n"])
  qed
qed

lemma substring_prefix: "n \<le> length s \<Longrightarrow> substring s 0 (int n) = take n s"
  by (simp add: substring_def Let_def min_def max_def)

lemma substring_from_drop: "0 \<le> a \<Longrightarrow> substring_from s a = drop (nat a) s"
  by (auto simp: substring_from_def substring_def Let_def min_def max_def)

lemma split_sentences_from_concat_visible:
  "visible (concat (split_sentences_from seg s)) = visible (seg @ s)"
proof (induction seg s rule: split_sentences_from.induct)
  case (1 seg)
  show ?case by simp
next
  case (2 seg c cs)
  have dw: "visible (dropWhile is_space cs) = visible cs"
    by (induction cs) simp_all
  from 2 show ?case by (auto simp: dw)
qed

lemma split_sentences_from_concat_length:
  "length (concat (split_sentences_from seg s)) \<le> length (seg @ s)"
proof (induction seg s rule: split_sentences_from.induct)
  case (1 seg)
  show ?case by simp
next
  case (2 seg c cs)
  have "length (dropWhile is_space cs) \<le> length cs"
    by (rule length_dropWhile_le)
  with 2 show ?case by (auto split: if_splits)
qed

lemma split_sentences_from_nonempty [simp]: "split_sentences_from seg s \<noteq> []"
  by (induction seg s rule: split_sentences_from.induct) auto

lemma suffix_dropWhile: "suffix (dropWhile P xs) xs"
  by (metis suffix_def takeWhile_dropWhile_id)

lemma split_sentences_from_last:
  "suffix (last (split_sentences_from seg s)) (seg @ s)"
proof (induction seg s rule: split_sentences_from.induct)
  case (1 seg)
  show ?case by simp
next
  case (2 seg c cs)
  show ?case
  proof (cases "is_terminator c \<and> (case cs of [] \<Rightarrow> False | d # _ \<Rightarrow> is_space d)")
    case True
    with 2(1) have "suffix (last (split_sentences_from [] (dropWhile is_space cs))) (dropWhile is_space cs)"
      by simp
    then have "suffix (last (split_sentences_from [] (dropWhile is_space cs))) (seg @ c # cs)"
      by (meson suffix_dropWhile suffix_order.trans suffix_Cons suffix_appendI suffixI
          suffix_order.order_trans suffix_ConsI)
    with True show ?thesis by simp
  next
    case False
    with 2(2) show ?thesis by auto
  qed
qed

lemma split_sentences_from_odd: "odd (length (split_sentences_from seg s))"
  by (induction seg s rule: split_sentences_from.induct) auto

lemma split_sentences_from_punct:
  "length (split_sentences_from seg s) > 2 \<Longrightarrow>
     \<exists>c. last (butlast (split_sentences_from seg s)) = [c]"
proof (induction seg s rule: split_sentences_from.induct)
  case (1 seg)
  then show ?case by simp
next
  case (2 seg c cs)
  show ?case
  proof (cases "is_terminator c \<and> (case cs of [] \<Rightarrow> False | d # _ \<Rightarrow> is_space d)")
    case True
    let ?r = "split_sentences_from [] (dropWhile is_space cs)"
    have odd: "odd (length ?r)" by (rule split_sentences_from_odd)
    show ?thesis
    proof (cases "length ?r > 2")
      case True
      with 2(1) \<open>is_terminator c \<and> _\<close> obtain d where "last (butlast ?r) = [d]" by auto
      moreover from True have "butlast ?r \<noteq> []" by (cases ?r) auto
      ultimately show ?thesis using \<open>is_terminator c \<and> _\<close> True by auto
    next
      case False
      with odd have "length ?r = 1"
        by (metis One_nat_def Suc_1 Suc_lessI dvd_refl length_greater_0_conv
            split_sentences_from_nonempty not_less_eq numeral_2_eq_2 odd_pos)
      then obtain x where "?r = [x]" by (cases ?r) auto
      with \<open>is_terminator c \<and> _\<close> show ?thesis by simp
    qed
  next
    case False
    with 2 show ?thesis by auto
  qed
qed

lemma concat_pop_pop:
  "length xs \<ge> 2 \<Longrightarrow> concat (butlast (butlast xs)) @ last (butlast xs) @ last xs = concat xs"
proof -
  assume "length xs \<ge> 2"
  then have "xs \<noteq> []" "butlast xs \<noteq> []" by (cases xs; auto)+
  then have "xs = butlast (butlast xs) @ [last (butlast xs)] @ [last xs]"
    by (metis append_butlast_last_id append_assoc)
  then have "concat xs = concat (butlast (butlast xs) @ [last (butlast xs)] @ [last xs])"
    by simp
  then show ?thesis by simp
qed

subsection \<open>The first variant emits one span at a time\<close>

lemma marker_loop_length:
  "marker_loop lines i = Some (spans, rest) \<Longrightarrow> length spans = 1"
proof (induction lines i rule: marker_loop.induct)
  case (1 lines i)
  then show ?case
    by (subst (asm) (2) marker_loop.simps) (auto split: if_splits)
qed

lemma marker_branch_length: "length (fst (marker_branch b)) \<le> Suc 0"
  by (auto simp: marker_branch_def split: option.splits dest: marker_loop_length)

lemma extractCompleteBlocks_A_length: "length (fst (extractCompleteBlocks_A b)) \<le> Suc 0"
  by (auto simp: extractCompleteBlocks_A_def Let_def marker_branch_length split: prod.splits)

lemma marker_loop_Some:
  "marker_loop lines i = Some (spans, rest) \<Longrightarrow>
     \<exists>j. j + 1 < length lines \<and> spans = [join [10] (take (j + 1) lines)]
         \<and> rest = join [10] (drop (j + 1) lines)"
proof (induction lines i rule: marker_loop.induct)
  case (1 lines i)
  show ?case
  proof (cases "is_marker_line (lines ! i)")
    case True
    with "1.prems" have "int i < int (length lines) - 1"
        "spans = [join [10] (take (i + 1) lines)]" "rest = join [10] (drop (i + 1) lines)"
      by (subst (asm) marker_loop.simps, simp split: if_splits)+
    then show ?thesis by (intro exI[of _ i]) auto
  next
    case False
    with "1.prems" have "int i < int (length lines) - 1"
        "marker_loop lines (i + 1) = Some (spans, rest)"
      by (subst (asm) marker_loop.simps, simp split: if_splits)+
    with False "1.IH" show ?thesis by simp
  qed
qed

lemma marker_branch_split:
  "marker_branch b = (spans, rest) \<Longrightarrow>
     (spans = [] \<and> rest = b) \<or> (\<exists>blk. spans = [blk] \<and> b = blk @ [10] @ rest)"
proof (cases "marker_loop (split_on 10 b) 0")
  case None
  assume "marker_branch b = (spans, rest)"
  with None show ?thesis by (simp add: marker_branch_def)
next
  case (Some r)
  assume "marker_branch b = (spans, rest)"
  with Some have "marker_loop (split_on 10 b) 0 = Some (spans, rest)"
    by (simp add: marker_branch_def)
  then obtain j where j: "j + 1 < length (split_on 10 b)"
      "spans = [join [10] (take (j + 1) (split_on 10 b))]"
      "rest = join [10] (drop (j + 1) (split_on 10 b))"
    using marker_loop_Some by blast
  have "b = join [10] (take (j + 1) (split_on 10 b) @ drop (j + 1) (split_on 10 b))"
    by simp
  also have "\<dots> = join [10] (take (j + 1) (split_on 10 b)) @ [10]
      @ join [10] (drop (j + 1) (split_on 10 b))"
    using j(1) by (intro join_append) auto
  finally show ?thesis using j by auto
qed

lemma marker_branch_props:
  assumes "marker_branch b = (spans, rest)"
  shows "visible (concat spans @ rest) = visible b"
    and "length (concat spans) + length rest \<le> length b"
    and "suffix rest b"
  using marker_branch_split[OF assms] by (auto simp: suffix_def)

lemma extractCompleteBlocks_A_props:
  assumes "extractCompleteBlocks_A b = (spans, rest)"
  shows "visible (concat spans @ rest) = visible b"
    and "length (concat spans) + length rest \<le> length b"
    and "suffix rest b"
proof -
  have "visible (concat spans @ rest) = visible b
      \<and> length (concat spans) + length rest \<le> length b \<and> suffix rest b"
  proof (cases "indexOf b [10, 10] \<noteq> - 1")
    case True
    then obtain n t where n: "indexOf b [10, 10] = int n" "drop n b = [10, 10] @ t" "n \<le> length b"
      using indexOf_found by blast
    have b: "b = take n b @ [10, 10] @ t"
      using n(2) by (metis append_take_drop_id)
    have t: "drop (Suc (Suc n)) b = t"
      using n(2) by (metis Cons_eq_appendI append_Nil drop_Suc drop_drop list.sel(3) tl_drop
          add_2_eq_Suc' drop0 plus_1_eq_Suc)
    from assms True n have rest: "rest = t"
      and spans: "spans = (if trim (take n b) \<noteq> [] then [take n b] else [])"
      by (auto simp: extractCompleteBlocks_A_def Let_def substring_prefix substring_from_drop
          nat_add_distrib t split: if_splits)
    have len: "length b = n + 2 + length t"
      using arg_cong[OF b, of length] n(3) by simp
    show ?thesis
    proof (cases "trim (take n b) = []")
      case True
      then have "visible (take n b) = []" by (simp add: trim_empty_iff)
      moreover have "visible b = visible (take n b) @ visible t"
        by (subst b) simp
      moreover have "suffix t b"
        unfolding suffix_def using b by (intro exI[of _ "take n b @ [10, 10]"]) simp
      ultimately show ?thesis using True rest spans len
        by auto
    next
      case False
      have "visible b = visible (take n b) @ visible t"
        by (subst b) simp
      moreover have "suffix t b"
        unfolding suffix_def using b by (intro exI[of _ "take n b @ [10, 10]"]) simp
      ultimately show ?thesis using False rest spans len n(3)
        by auto
    qed
  next
    case False
    note noidx = this
    show ?thesis
    proof (cases "length (split_sentences b) > 2")
      case True
      let ?ss = "split_sentences b"
      obtain c where c: "last (butlast ?ss) = [c]"
        using True split_sentences_from_punct[of "[]" b] by (auto simp: split_sentences_def)
      from True have ne: "?ss \<noteq> []" "butlast ?ss \<noteq> []"
        by (cases ?ss; auto)+
      from assms noidx True c ne have sp: "spans = [concat (butlast (butlast ?ss)) @ [c]]"
        and rest: "rest = last ?ss"
        by (auto simp: extractCompleteBlocks_A_def Let_def pop_def or_empty_def)
      have cc: "concat spans @ rest = concat ?ss"
        using concat_pop_pop[of ?ss] True c sp rest by simp
      have "visible (concat ?ss) = visible b"
        using split_sentences_from_concat_visible[of "[]" b] by (simp add: split_sentences_def)
      moreover have "length (concat ?ss) \<le> length b"
        using split_sentences_from_concat_length[of "[]" b] by (simp add: split_sentences_def)
      moreover have "suffix (last ?ss) b"
        using split_sentences_from_last[of "[]" b] by (simp add: split_sentences_def)
      ultimately show ?thesis
        using cc rest by (metis length_append)
    next
      case False
      with assms noidx have "marker_branch b = (spans, rest)"
        by (auto simp: extractCompleteBlocks_A_def Let_def)
      then show ?thesis using marker_branch_props by blast
    qed
  qed
  then show "visible (concat spans @ rest) = visible b"
    and "length (concat spans) + length rest \<le> length b"
    and "suffix rest b" by simp_all
qed

lemma parseBlock_content: "parseBlock cv now c i = Inr blk \<Longrightarrow> content blk = c"
  by (auto simp: parseBlock_def Let_def split: sum.splits)

lemma parseBlocks_from_content:
  "parseBlocks_from cv clock i spans = Inr bs \<Longrightarrow> map content bs = spans"
  by (induction spans arbitrary: i bs) (auto split: sum.splits dest: parseBlock_content)

lemma parseBlocks_content: "parseBlocks cv clock spans = Inr bs \<Longrightarrow> map content bs = spans"
  unfolding parseBlocks_def by (rule parseBlocks_from_content)

lemma parseBlocks_length: "parseBlocks cv clock spans = Inr bs \<Longrightarrow> length bs = length spans"
  using parseBlocks_content by (metis length_map)

lemma pendingBlocks_scheduleRender [simp]: "pendingBlocks (scheduleRender r) = pendingBlocks r"
  by (simp add: scheduleRender_def)

lemma pendingBlocks_appendBlocks [simp]:
  "pendingBlocks (appendBlocks bs r) = pendingBlocks r @ bs"
  by (simp add: appendBlocks_def Let_def split: option.splits list.splits)

lemma deliver_simps [simp]:
  "processedBlocks (deliver bs p) = processedBlocks p @ bs"
  "buffer (deliver bs p) = buffer p"
  "renderer (deliver bs p) = appendBlocks bs (renderer p)"
  by (simp_all add: deliver_def)

lemma append_begin_A_simps:
  "fst (append_begin_A chunk p) = fst (extractCompleteBlocks_A (buffer p @ chunk))"
  "buffer (snd (append_begin_A chunk p)) = snd (extractCompleteBlocks_A (buffer p @ chunk))"
  "processedBlocks (snd (append_begin_A chunk p)) = processedBlocks p"
  "renderer (snd (append_begin_A chunk p)) = renderer p"
  by (simp_all add: append_begin_A_def split: prod.splits)

text \<open>
  C10: whatever the buffer holds, one call of the first variant's \<open>extractCompleteBlocks\<close>
  returns at most one span; what it leaves in the buffer is a suffix of the old buffer,
  and the span and the new buffer together hold every character of the old buffer that
  is not white space. So one \<open>append\<close> adds at most one block to the processed blocks and
  to the renderer's pending queue, and everything else stays buffered.
\<close>

theorem first_variant_one_span_per_call:
  "length (fst (extractCompleteBlocks_A b)) \<le> 1
   \<and> suffix (snd (extractCompleteBlocks_A b)) b
   \<and> visible (concat (fst (extractCompleteBlocks_A b)) @ snd (extractCompleteBlocks_A b)) = visible b
   \<and> length (processedBlocks (snd (append_A cv clock chunk p))) \<le> length (processedBlocks p) + 1
   \<and> length (pendingBlocks (renderer (snd (append_A cv clock chunk p))))
       \<le> length (pendingBlocks (renderer p)) + 1"
proof -
  obtain spans rest where e: "extractCompleteBlocks_A b = (spans, rest)"
    by (cases "extractCompleteBlocks_A b")
  have one: "\<And>x. length (fst (extractCompleteBlocks_A x)) \<le> Suc 0"
    by (rule extractCompleteBlocks_A_length)
  obtain nb p1 where ab: "append_begin_A chunk p = (nb, p1)"
    by (cases "append_begin_A chunk p")
  have nb: "length nb \<le> Suc 0" and p1: "processedBlocks p1 = processedBlocks p"
      "renderer p1 = renderer p"
    using append_begin_A_simps[of chunk p] one[of "buffer p @ chunk"] ab by simp_all
  have "length (processedBlocks (snd (append_A cv clock chunk p))) \<le> length (processedBlocks p) + 1
     \<and> length (pendingBlocks (renderer (snd (append_A cv clock chunk p))))
       \<le> length (pendingBlocks (renderer p)) + 1"
    using ab nb p1
    by (auto simp: append_A_def split: sum.splits dest!: parseBlocks_length)
  then show ?thesis
    using e one[of b] extractCompleteBlocks_A_props[OF e] by simp
qed

subsection \<open>The renderer\<close>

lemma clear_renderer_idem: "clear_renderer (clear_renderer r) = clear_renderer r"
  by (simp add: clear_renderer_def split: option.splits)

text \<open>
  C9: a second \<open>clear\<close> changes nothing. The stream processor of either variant and the
  renderer are, after \<open>clear\<close> twice, in the state they are in after \<open>clear\<close> once:
  the same buffer, processed blocks, pending queue, rendered blocks, container and
  requested animation frame.
\<close>

theorem clear_twice:
  "clear_A (clear_A p) = clear_A p
   \<and> clear_B (clear_B q) = clear_B q
   \<and> clear_renderer (clear_renderer r) = clear_renderer r"
  by (simp add: clear_A_def clear_B_def clear_renderer_idem)

lemma rendered_batch_snoc:
  "rendered_batch (bs @ [b]) first = rendered_batch bs first @ [renderBlock b (first + length bs)]"
  by (simp add: rendered_batch_def)

lemma rendered_batch_Nil [simp]: "rendered_batch [] first = []"
  by (simp add: rendered_batch_def)

lemma render_one_fields:
  assumes "render_one (r, f) b = (r', f')"
  shows "pendingBlocks r' = pendingBlocks r" "isRendering r' = isRendering r"
    "rafId r' = rafId r" "timeouts r' = timeouts r" "frameRequests r' = frameRequests r"
    "nextHandle r' = nextHandle r" "chunkSize r' = chunkSize r" "debounceMs r' = debounceMs r"
    "nextElement r' = nextElement r + 1"
  using assms
  by (auto simp: render_one_def Let_def split: if_splits option.splits prod.splits)

lemma render_one_elements:
  assumes "render_one (r, f) b = (r', f')"
  shows "\<exists>P. container r' = filter P (container r)
            \<and> f' = filter P f @ [renderBlock b (nextElement r)]"
proof (cases "is_temp (block_id b) \<and> lastTempBlockId r \<noteq> None \<and> the (lastTempBlockId r) \<noteq> []
    \<and> map_of (renderedBlocks r) (the (lastTempBlockId r)) \<noteq> None")
  case True
  then obtain t e where "lastTempBlockId r = Some t" "t \<noteq> []" "map_of (renderedBlocks r) t = Some e"
    by auto
  with True assms show ?thesis
    by (intro exI[of _ "\<lambda>x. eid x \<noteq> e"])
       (auto simp: render_one_def Let_def remove_element_def)
next
  case False
  with assms show ?thesis
    by (intro exI[of _ "\<lambda>x. True"])
       (auto simp: render_one_def Let_def split: option.splits if_splits)
qed

lemma render_one_plain:
  assumes "render_one (r, f) b = (r', f')" "\<not> is_temp (block_id b)"
  shows "container r' = container r" "f' = f @ [renderBlock b (nextElement r)]"
    "lastTempBlockId r' = lastTempBlockId r"
  using assms by (auto simp: render_one_def Let_def)

lemma foldl_render_one_fields:
  assumes "foldl render_one (r, f) chunk = (r', f')"
  shows "pendingBlocks r' = pendingBlocks r \<and> isRendering r' = isRendering r
    \<and> rafId r' = rafId r \<and> timeouts r' = timeouts r \<and> frameRequests r' = frameRequests r
    \<and> nextHandle r' = nextHandle r \<and> chunkSize r' = chunkSize r \<and> debounceMs r' = debounceMs r
    \<and> nextElement r' = nextElement r + length chunk"
  using assms
proof (induction chunk arbitrary: r' f' rule: rev_induct)
  case Nil
  then show ?case by simp
next
  case (snoc b chunk)
  obtain r1 f1 where m: "foldl render_one (r, f) chunk = (r1, f1)"
    by (cases "foldl render_one (r, f) chunk")
  with snoc.prems have "render_one (r1, f1) b = (r', f')" by simp
  from render_one_fields[OF this] snoc.IH[OF m] show ?case by simp
qed

lemma foldl_render_one_elements:
  assumes "foldl render_one (r, []) chunk = (r', f')"
  shows "subseq (container r') (container r) \<and> subseq f' (rendered_batch chunk (nextElement r))"
  using assms
proof (induction chunk arbitrary: r' f' rule: rev_induct)
  case Nil
  then show ?case by simp
next
  case (snoc b chunk)
  obtain r1 f1 where m: "foldl render_one (r, []) chunk = (r1, f1)"
    by (cases "foldl render_one (r, []) chunk")
  with snoc.prems have step: "render_one (r1, f1) b = (r', f')" by simp
  from snoc.IH[OF m] have ih: "subseq (container r1) (container r)"
      "subseq f1 (rendered_batch chunk (nextElement r))" by simp_all
  from foldl_render_one_fields[OF m] have ne: "nextElement r1 = nextElement r + length chunk"
    by simp
  from render_one_elements[OF step] obtain P where
    P: "container r' = filter P (container r1)" "f' = filter P f1 @ [renderBlock b (nextElement r1)]"
    by blast
  have "subseq (filter P (container r1)) (container r)"
    using ih(1) by (meson subseq_filter_left subseq_order.order_trans)
  moreover have "subseq (filter P f1 @ [renderBlock b (nextElement r1)])
      (rendered_batch (chunk @ [b]) (nextElement r))"
    unfolding rendered_batch_snoc ne
    by (intro list_emb_append_mono) (use ih(2) in \<open>auto intro: subseq_order.order_trans[OF subseq_filter_left]\<close>)
  ultimately show ?case using P by simp
qed

lemma foldl_render_one_plain:
  assumes "foldl render_one (r, f) chunk = (r', f')"
    and "list_all (\<lambda>b. \<not> is_temp (block_id b)) chunk"
  shows "container r' = container r \<and> f' = f @ rendered_batch chunk (nextElement r)
    \<and> lastTempBlockId r' = lastTempBlockId r"
  using assms
proof (induction chunk arbitrary: r' f' rule: rev_induct)
  case Nil
  then show ?case by simp
next
  case (snoc b chunk)
  obtain r1 f1 where m: "foldl render_one (r, f) chunk = (r1, f1)"
    by (cases "foldl render_one (r, f) chunk")
  with snoc.prems have step: "render_one (r1, f1) b = (r', f')" and nt: "\<not> is_temp (block_id b)"
    and rest: "list_all (\<lambda>b. \<not> is_temp (block_id b)) chunk" by simp_all
  from foldl_render_one_fields[OF m] have ne: "nextElement r1 = nextElement r + length chunk"
    by simp
  from render_one_plain[OF step nt] snoc.IH[OF m rest] ne show ?case
    by (simp add: rendered_batch_snoc)
qed

lemma is_temp_nonempty: "is_temp t \<Longrightarrow> t \<noteq> []"
  by (auto simp: is_temp_def startsWith_def js_def)

lemma renderer_inv_no_temp:
  assumes "renderer_inv r f" "\<forall>k \<in> set (map fst (renderedBlocks r)). \<not> is_temp k"
    "e \<in> set (container r @ f)"
  shows "\<not> is_temp (dataset_blockId e)"
proof
  assume "is_temp (dataset_blockId e)"
  with assms(1,3) have "map_of (renderedBlocks r) (dataset_blockId e) = Some (eid e)"
    unfolding renderer_inv_def by blast
  then have "dataset_blockId e \<in> set (map fst (renderedBlocks r))"
    by (metis map_of_eq_None_iff option.distinct(1) set_map)
  with assms(2) \<open>is_temp (dataset_blockId e)\<close> show False by blast
qed

lemma renderer_inv_temp_element:
  assumes "renderer_inv r f" "e \<in> set (container r @ f)" "is_temp (dataset_blockId e)"
  shows "lastTempBlockId r = Some (dataset_blockId e)
    \<and> map_of (renderedBlocks r) (dataset_blockId e) = Some (eid e)"
proof -
  from assms have m: "map_of (renderedBlocks r) (dataset_blockId e) = Some (eid e)"
    unfolding renderer_inv_def by blast
  then have "dataset_blockId e \<in> set (map fst (renderedBlocks r))"
    by (metis map_of_eq_None_iff option.distinct(1) set_map)
  with assms(1,3) have "lastTempBlockId r = Some (dataset_blockId e)"
    unfolding renderer_inv_def by blast
  with m show ?thesis by simp
qed

lemma renderer_inv_temp_key:
  assumes "renderer_inv r f" "k \<in> set (map fst (renderedBlocks r))" "is_temp k"
  shows "lastTempBlockId r = Some k"
  using assms unfolding renderer_inv_def by blast

text \<open>Dropping the provisional entry leaves no provisional key and no provisional element.\<close>

lemma drop_provisional_inv:
  assumes inv: "renderer_inv r f" and t: "lastTempBlockId r = Some t"
    and m: "map_of (renderedBlocks r) t = Some old"
  shows "renderer_inv (r\<lparr>container := remove_element old (container r),
                        renderedBlocks := AList.delete t (renderedBlocks r),
                        lastTempBlockId := lt\<rparr>) (remove_element old f)"
    and "\<forall>k \<in> set (map fst (AList.delete t (renderedBlocks r))). \<not> is_temp k"
proof -
  show nk: "\<forall>k \<in> set (map fst (AList.delete t (renderedBlocks r))). \<not> is_temp k"
  proof
    fix k assume k: "k \<in> set (map fst (AList.delete t (renderedBlocks r)))"
    then have "k \<noteq> t" "k \<in> set (map fst (renderedBlocks r))"
      by (auto simp: delete_keys)
    with renderer_inv_temp_key[OF inv] t show "\<not> is_temp k" by auto
  qed
  have el: "\<not> is_temp (dataset_blockId e)"
    if "e \<in> set (remove_element old (container r) @ remove_element old f)" for e
  proof
    assume te: "is_temp (dataset_blockId e)"
    from that have mem: "e \<in> set (container r @ f)" and ne: "eid e \<noteq> old"
      by (auto simp: remove_element_def)
    from renderer_inv_temp_element[OF inv mem te] t m ne show False by auto
  qed
  from inv have d: "distinct (map fst (renderedBlocks r))" "distinct (map eid (container r @ f))"
    "\<forall>e \<in> set (container r @ f). eid e < nextElement r"
    unfolding renderer_inv_def by blast+
  have "distinct (map eid (remove_element old (container r) @ remove_element old f))"
    using d(2) unfolding remove_element_def
    by (metis distinct_map_filter filter_append)
  moreover have "\<forall>e \<in> set (remove_element old (container r) @ remove_element old f).
      eid e < nextElement r"
    using d(3) by (auto simp: remove_element_def)
  ultimately show "renderer_inv (r\<lparr>container := remove_element old (container r),
                        renderedBlocks := AList.delete t (renderedBlocks r),
                        lastTempBlockId := lt\<rparr>) (remove_element old f)"
    unfolding renderer_inv_def using d(1) nk el
    by (simp add: distinct_delete)
qed

lemma no_provisional_when_unmapped:
  assumes inv: "renderer_inv r f"
    and un: "lastTempBlockId r = None \<or> (\<exists>t. lastTempBlockId r = Some t
        \<and> (t = [] \<or> map_of (renderedBlocks r) t = None))"
  shows "\<forall>k \<in> set (map fst (renderedBlocks r)). \<not> is_temp k"
proof
  fix k assume k: "k \<in> set (map fst (renderedBlocks r))"
  show "\<not> is_temp k"
  proof
    assume tk: "is_temp k"
    from renderer_inv_temp_key[OF inv k tk] have lt: "lastTempBlockId r = Some k" .
    from k have "map_of (renderedBlocks r) k \<noteq> None"
      by (metis map_of_eq_None_iff set_map)
    with un lt is_temp_nonempty[OF tk] show False by auto
  qed
qed

text \<open>
  Adding the element rendered for a block, when no provisional key is left or the block
  is not provisional.
\<close>

lemma add_element_inv:
  assumes inv: "renderer_inv r f"
    and ok: "(\<forall>k \<in> set (map fst (renderedBlocks r)). \<not> is_temp k) \<and> lt = Some (block_id b)
        \<or> \<not> is_temp (block_id b) \<and> lt = lastTempBlockId r"
  shows "renderer_inv (r\<lparr>lastTempBlockId := lt,
      renderedBlocks := AList.update (block_id b) (nextElement r) (renderedBlocks r),
      nextElement := nextElement r + 1\<rparr>) (f @ [renderBlock b (nextElement r)])"
proof -
  from inv have d: "distinct (map fst (renderedBlocks r))" "distinct (map eid (container r @ f))"
    "\<forall>e \<in> set (container r @ f). eid e < nextElement r"
    unfolding renderer_inv_def by blast+
  let ?new = "renderBlock b (nextElement r)"
  have new: "eid ?new = nextElement r" "dataset_blockId ?new = block_id b"
    by (simp_all add: renderBlock_def)
  have 1: "distinct (map fst (AList.update (block_id b) (nextElement r) (renderedBlocks r)))"
    using d(1) by (rule distinct_update)
  have 2: "distinct (map eid (container r @ f @ [?new]))"
    using d(2,3) new by auto
  have 3: "\<forall>e \<in> set (container r @ f @ [?new]). eid e < nextElement r + 1"
    using d(3) new by (auto simp: less_Suc_eq)
  have 4: "lt = Some k" if "k \<in> set (map fst (AList.update (block_id b) (nextElement r) (renderedBlocks r)))"
      "is_temp k" for k
  proof -
    from that(1) have "k = block_id b \<or> k \<in> set (map fst (renderedBlocks r))"
      by (auto simp: update_keys split: if_splits)
    with ok that(2) renderer_inv_temp_key[OF inv] show ?thesis by auto
  qed
  have 5: "map_of (AList.update (block_id b) (nextElement r) (renderedBlocks r)) (dataset_blockId e)
        = Some (eid e)"
    if "e \<in> set (container r @ f @ [?new])" "is_temp (dataset_blockId e)" for e
  proof (cases "e = ?new")
    case True
    then show ?thesis by (simp add: new update_conv')
  next
    case False
    with that(1) have mem: "e \<in> set (container r @ f)" by auto
    from renderer_inv_temp_element[OF inv mem that(2)]
    have m: "map_of (renderedBlocks r) (dataset_blockId e) = Some (eid e)" by simp
    then have "dataset_blockId e \<in> set (map fst (renderedBlocks r))"
      by (metis map_of_eq_None_iff option.distinct(1) set_map)
    with ok that(2) have "dataset_blockId e \<noteq> block_id b" by auto
    with m show ?thesis by (simp add: update_conv')
  qed
  show ?thesis
    unfolding renderer_inv_def using 1 2 3 4 5 by simp
qed

lemma render_one_inv:
  assumes inv: "renderer_inv r f" and step: "render_one (r, f) b = (r', f')"
  shows "renderer_inv r' f'"
proof (cases "is_temp (block_id b)")
  case False
  from add_element_inv[OF inv, of "lastTempBlockId r" b] False
  have "renderer_inv (r\<lparr>lastTempBlockId := lastTempBlockId r,
      renderedBlocks := AList.update (block_id b) (nextElement r) (renderedBlocks r),
      nextElement := nextElement r + 1\<rparr>) (f @ [renderBlock b (nextElement r)])"
    by simp
  moreover from step False have "r' = r\<lparr>lastTempBlockId := lastTempBlockId r,
      renderedBlocks := AList.update (block_id b) (nextElement r) (renderedBlocks r),
      nextElement := nextElement r + 1\<rparr>" "f' = f @ [renderBlock b (nextElement r)]"
    by (auto simp: render_one_def Let_def renderBlock_def)
  ultimately show ?thesis by simp
next
  case True
  note temp = this
  show ?thesis
  proof (cases "\<exists>t old. lastTempBlockId r = Some t \<and> t \<noteq> [] \<and> map_of (renderedBlocks r) t = Some old")
    case True
    then obtain t old where t: "lastTempBlockId r = Some t" "t \<noteq> []"
        "map_of (renderedBlocks r) t = Some old" by blast
    let ?ra = "r\<lparr>container := remove_element old (container r),
                  renderedBlocks := AList.delete t (renderedBlocks r),
                  lastTempBlockId := Some t\<rparr>"
    from drop_provisional_inv(1)[OF inv t(1) t(3), of "Some t"]
    have ia: "renderer_inv ?ra (remove_element old f)" by simp
    from drop_provisional_inv(2)[OF inv t(1) t(3)]
    have nk: "\<forall>k \<in> set (map fst (renderedBlocks ?ra)). \<not> is_temp k" by simp
    from add_element_inv[OF ia, of "Some (block_id b)" b] nk
    have "renderer_inv (?ra\<lparr>lastTempBlockId := Some (block_id b),
      renderedBlocks := AList.update (block_id b) (nextElement ?ra) (renderedBlocks ?ra),
      nextElement := nextElement ?ra + 1\<rparr>) (remove_element old f @ [renderBlock b (nextElement ?ra)])"
      by blast
    moreover from step temp t have "r' = ?ra\<lparr>lastTempBlockId := Some (block_id b),
      renderedBlocks := AList.update (block_id b) (nextElement ?ra) (renderedBlocks ?ra),
      nextElement := nextElement ?ra + 1\<rparr>"
      "f' = remove_element old f @ [renderBlock b (nextElement ?ra)]"
      by (auto simp: render_one_def Let_def renderBlock_def)
    ultimately show ?thesis by simp
  next
    case False
    then have un: "lastTempBlockId r = None \<or> (\<exists>t. lastTempBlockId r = Some t
        \<and> (t = [] \<or> map_of (renderedBlocks r) t = None))"
      by (cases "lastTempBlockId r") auto
    from no_provisional_when_unmapped[OF inv un]
    have nk: "\<forall>k \<in> set (map fst (renderedBlocks r)). \<not> is_temp k" .
    from add_element_inv[OF inv, of "Some (block_id b)" b] nk
    have "renderer_inv (r\<lparr>lastTempBlockId := Some (block_id b),
      renderedBlocks := AList.update (block_id b) (nextElement r) (renderedBlocks r),
      nextElement := nextElement r + 1\<rparr>) (f @ [renderBlock b (nextElement r)])"
      by blast
    moreover from step temp un have "r' = r\<lparr>lastTempBlockId := Some (block_id b),
      renderedBlocks := AList.update (block_id b) (nextElement r) (renderedBlocks r),
      nextElement := nextElement r + 1\<rparr>" "f' = f @ [renderBlock b (nextElement r)]"
      by (auto simp: render_one_def Let_def renderBlock_def split: option.splits)
    ultimately show ?thesis by simp
  qed
qed

lemma foldl_render_one_inv:
  "renderer_inv r f \<Longrightarrow> foldl render_one (r, f) chunk = (r', f') \<Longrightarrow> renderer_inv r' f'"
proof (induction chunk arbitrary: r f)
  case Nil
  then show ?case by simp
next
  case (Cons b chunk)
  obtain r1 f1 where s: "render_one (r, f) b = (r1, f1)" by (cases "render_one (r, f) b")
  from render_one_inv[OF Cons.prems(1) s] Cons.prems(2) s Cons.IH show ?case by simp
qed

lemma renderer_inv_cong:
  "renderer_inv r f \<Longrightarrow> container r' @ f' = container r @ f
    \<Longrightarrow> renderedBlocks r' = renderedBlocks r \<Longrightarrow> nextElement r' = nextElement r
    \<Longrightarrow> lastTempBlockId r' = lastTempBlockId r \<Longrightarrow> renderer_inv r' f'"
  unfolding renderer_inv_def by simp

lemma scheduleRender_inv: "renderer_inv r [] \<Longrightarrow> renderer_inv (scheduleRender r) []"
  by (erule renderer_inv_cong) (simp_all add: scheduleRender_def)

lemma renderPendingBlocks_inv:
  assumes "renderer_inv r []"
  shows "renderer_inv (renderPendingBlocks t r) []"
proof (cases "isRendering r \<or> length (pendingBlocks r) = 0")
  case True
  with assms show ?thesis by (simp add: renderPendingBlocks_def)
next
  case False
  define r2 where "r2 = r\<lparr>isRendering := True,
      pendingBlocks := drop (nat (max 0 (chunkSize r))) (pendingBlocks r)\<rparr>"
  have i2: "renderer_inv r2 []"
    using assms by (rule renderer_inv_cong) (simp_all add: r2_def)
  obtain r3 fragment where f: "foldl render_one (r2, []) (take (nat (max 0 (chunkSize r))) (pendingBlocks r))
      = (r3, fragment)" by fastforce
  from foldl_render_one_inv[OF i2 f] have i3: "renderer_inv r3 fragment" .
  show ?thesis
    using i3 False f unfolding renderPendingBlocks_def
    by (intro renderer_inv_cong[OF i3])
       (simp_all add: Let_def r2_def scrollToBottom_def)
qed

lemma appendBlocks_inv:
  assumes inv: "renderer_inv r []"
  shows "renderer_inv (appendBlocks bs r) []"
proof -
  let ?r1 = "(case (lastTempBlockId r, bs) of
           (Some t, b # _) \<Rightarrow>
             if t \<noteq> [] then
               (case map_of (renderedBlocks r) t of
                  Some tempElement \<Rightarrow>
                    if \<not> is_temp (block_id b) then
                      r\<lparr>container := remove_element tempElement (container r),
                        renderedBlocks := AList.delete t (renderedBlocks r),
                        lastTempBlockId := None\<rparr>
                    else r
                | None \<Rightarrow> r)
             else r
         | _ \<Rightarrow> r)"
  have "renderer_inv ?r1 []"
    using inv drop_provisional_inv(1)[OF inv, where lt = None]
    by (auto simp: remove_element_def split: option.splits list.splits)
  then have "renderer_inv (?r1\<lparr>pendingBlocks := pendingBlocks ?r1 @ bs\<rparr>) []"
    by (rule renderer_inv_cong) simp_all
  then show ?thesis
    unfolding appendBlocks_def Let_def by (rule scheduleRender_inv)
qed

lemma clear_renderer_inv: "renderer_inv (clear_renderer r) []"
  by (simp add: renderer_inv_def clear_renderer_def split: option.splits)

lemma run_frame_inv: "renderer_inv r [] \<Longrightarrow> renderer_inv (run_frame h t r) []"
  unfolding run_frame_def Let_def
  by (auto split: option.splits frame_callback.splits
      intro!: renderPendingBlocks_inv elim: renderer_inv_cong)

lemma fire_timeout_inv: "renderer_inv r [] \<Longrightarrow> renderer_inv (fire_timeout i r) []"
  unfolding fire_timeout_def
  by (auto intro!: scheduleRender_inv elim: renderer_inv_cong)

lemma renderer_step_inv: "renderer_inv r [] \<Longrightarrow> renderer_inv (renderer_step r ev) []"
  by (cases ev) (simp_all add: appendBlocks_inv run_frame_inv fire_timeout_inv clear_renderer_inv)

lemma renderer_run_inv: "renderer_inv (renderer_run cs db evs) []"
proof -
  have "renderer_inv r [] \<Longrightarrow> renderer_inv (foldl renderer_step r evs) []" for r
    by (induction evs arbitrary: r) (simp_all add: renderer_step_inv)
  moreover have "renderer_inv (new_renderer cs db) []"
    by (simp add: renderer_inv_def new_renderer_def)
  ultimately show ?thesis by (simp add: renderer_run_def)
qed

lemma filter_at_most_one:
  assumes "distinct (map g xs)"
    and "\<And>x y. x \<in> set xs \<Longrightarrow> y \<in> set xs \<Longrightarrow> P x \<Longrightarrow> P y \<Longrightarrow> g x = g y"
  shows "length (filter P xs) \<le> Suc 0"
  using assms
proof (induction xs)
  case Nil
  then show ?case by simp
next
  case (Cons x xs)
  from Cons.prems(1) have d: "distinct (map g xs)" and nx: "g x \<notin> g ` set xs" by simp_all
  have ih: "length (filter P xs) \<le> Suc 0"
    by (rule Cons.IH[OF d]) (rule Cons.prems(2); simp)
  show ?case
  proof (cases "P x")
    case True
    have "\<not> P y" if "y \<in> set xs" for y
    proof
      assume "P y"
      with Cons.prems(2)[of x y] True that have "g x = g y" by simp
      with nx that show False by (metis imageI)
    qed
    then have "filter P xs = []" by (simp add: filter_empty_conv)
    with True show ?thesis by simp
  next
    case False
    with ih show ?thesis by simp
  qed
qed

lemma renderer_inv_provisional:
  assumes inv: "renderer_inv r []"
  shows "length (provisional_elements (container r)) \<le> Suc 0"
    and "length (provisional_ids (renderedBlocks r)) \<le> Suc 0"
proof -
  have d: "distinct (map fst (renderedBlocks r))" "distinct (map eid (container r))"
    using inv unfolding renderer_inv_def by simp_all
  have e: "eid x = eid y"
    if "x \<in> set (container r)" "y \<in> set (container r)" "is_temp (dataset_blockId x)"
      "is_temp (dataset_blockId y)" for x y
  proof -
    from renderer_inv_temp_element[OF inv, of x] that
    have x: "lastTempBlockId r = Some (dataset_blockId x)"
      "map_of (renderedBlocks r) (dataset_blockId x) = Some (eid x)" by simp_all
    from renderer_inv_temp_element[OF inv, of y] that
    have y: "lastTempBlockId r = Some (dataset_blockId y)"
      "map_of (renderedBlocks r) (dataset_blockId y) = Some (eid y)" by simp_all
    from x(1) y(1) have "dataset_blockId x = dataset_blockId y" by simp
    with x(2) y(2) show ?thesis by simp
  qed
  show "length (provisional_elements (container r)) \<le> Suc 0"
    unfolding provisional_elements_def
    by (rule filter_at_most_one[OF d(2)]) (rule e)
  have k: "x = y" if "x \<in> set (map fst (renderedBlocks r))" "y \<in> set (map fst (renderedBlocks r))"
      "is_temp x" "is_temp y" for x y
    using renderer_inv_temp_key[OF inv that(1) that(3)]
      renderer_inv_temp_key[OF inv that(2) that(4)] by simp
  have d': "distinct (map (\<lambda>k. k) (map fst (renderedBlocks r)))" using d(1) by simp
  show "length (provisional_ids (renderedBlocks r)) \<le> Suc 0"
    unfolding provisional_ids_def
    by (rule filter_at_most_one[OF d']) (rule k)
qed


lemma rendered_batch_fresh: "e \<in> set (rendered_batch chunk first) \<Longrightarrow> first \<le> eid e"
  by (auto simp: rendered_batch_def renderBlock_def dest!: set_zip_rightD)

lemma keeps_same: "container r' = container r \<Longrightarrow> keeps r r'"
  unfolding keeps_def by (intro exI[of _ "container r"] exI[of _ "[]"]) simp

lemma keeps_filter: "container r' = filter P (container r) \<Longrightarrow> keeps r r'"
  unfolding keeps_def by (intro exI[of _ "filter P (container r)"] exI[of _ "[]"]) simp

lemma scheduleRender_container [simp]: "container (scheduleRender r) = container r"
  by (simp add: scheduleRender_def)

lemma renderPendingBlocks_keeps: "keeps r (renderPendingBlocks t r)"
proof (cases "isRendering r \<or> length (pendingBlocks r) = 0")
  case True
  then show ?thesis by (simp add: renderPendingBlocks_def keeps_same)
next
  case False
  define r2 where "r2 = r\<lparr>isRendering := True,
      pendingBlocks := drop (nat (max 0 (chunkSize r))) (pendingBlocks r)\<rparr>"
  define chunk where "chunk = take (nat (max 0 (chunkSize r))) (pendingBlocks r)"
  obtain r3 fragment where f: "foldl render_one (r2, []) chunk = (r3, fragment)" by fastforce
  from foldl_render_one_elements[OF f]
  have s: "subseq (container r3) (container r)" "subseq fragment (rendered_batch chunk (nextElement r))"
    by (simp_all add: r2_def)
  have c: "container (renderPendingBlocks t r) = container r3 @ fragment"
    using False f unfolding renderPendingBlocks_def
    by (simp add: Let_def r2_def chunk_def scrollToBottom_def)
  have "\<forall>e \<in> set fragment. nextElement r \<le> eid e"
    using s(2) rendered_batch_fresh by (metis subseq_order.dual_order.trans subseq_singleton_left)
  with s(1) c show ?thesis unfolding keeps_def by blast
qed

lemma renderer_step_keeps: "keeps r (renderer_step r ev)"
proof (cases ev)
  case (AppendBlocks bs)
  have "container (appendBlocks bs r) = container r
      \<or> (\<exists>e. container (appendBlocks bs r) = remove_element e (container r))"
    by (auto simp: appendBlocks_def Let_def split: option.splits list.splits)
  then show ?thesis using AppendBlocks
    by (auto simp: remove_element_def intro: keeps_same keeps_filter)
next
  case (Frame h t)
  show ?thesis
  proof (cases "map_of (frameRequests r) h")
    case None
    with Frame show ?thesis by (simp add: run_frame_def keeps_same)
  next
    case (Some cb)
    show ?thesis
    proof (cases cb)
      case RenderCallback
      let ?r1 = "r\<lparr>frameRequests := filter (\<lambda>q. fst q \<noteq> h) (frameRequests r), rafId := None\<rparr>"
      have "keeps ?r1 (renderPendingBlocks t ?r1)" by (rule renderPendingBlocks_keeps)
      then have "keeps r (renderPendingBlocks t ?r1)" by (simp add: keeps_def)
      with Frame Some RenderCallback show ?thesis by (simp add: run_frame_def)
    next
      case ScrollCallback
      with Frame Some show ?thesis by (simp add: run_frame_def keeps_same)
    qed
  qed
next
  case (Timeout i)
  then show ?thesis by (simp add: fire_timeout_def keeps_same)
next
  case Clear
  then show ?thesis
    by (auto simp: keeps_def clear_renderer_def split: option.splits)
qed

lemma keeps_old:
  assumes "keeps r r'"
  shows "subseq (filter (\<lambda>e. eid e < nextElement r) (container r')) (container r)"
proof -
  from assms obtain kept new where k: "container r' = kept @ new" "subseq kept (container r)"
      "\<forall>e \<in> set new. nextElement r \<le> eid e" unfolding keeps_def by blast
  from k(3) have "filter (\<lambda>e. eid e < nextElement r) new = []"
    by (auto simp: filter_empty_conv)
  with k(1) have "filter (\<lambda>e. eid e < nextElement r) (container r')
      = filter (\<lambda>e. eid e < nextElement r) kept" by simp
  then show ?thesis using k(2)
    by (metis subseq_filter_left subseq_order.order_trans)
qed

text \<open>
  C4: after any run of \<open>appendBlocks\<close>, animation frames, timeouts and \<open>clear\<close> from a new
  renderer, the container holds at most one element of a provisional block, and the
  \<open>renderedBlocks\<close> map at most one provisional id. Every element of the container was
  made before the next step; the elements that are still in the container after that
  step are unchanged and in their order, so a provisional element is removed or kept as
  it is, never edited.
\<close>

theorem one_provisional_block:
  "(let r = renderer_run cs db evs in
      length (provisional_elements (container r)) \<le> 1
      \<and> length (provisional_ids (renderedBlocks r)) \<le> 1
      \<and> list_all (\<lambda>e. eid e < nextElement r) (container r)
      \<and> subseq (filter (\<lambda>e. eid e < nextElement r) (container (renderer_step r ev)))
           (container r))"
proof -
  have inv: "renderer_inv (renderer_run cs db evs) []" by (rule renderer_run_inv)
  then have "list_all (\<lambda>e. eid e < nextElement (renderer_run cs db evs))
      (container (renderer_run cs db evs))"
    by (simp add: renderer_inv_def list_all_iff)
  with renderer_inv_provisional[OF inv] keeps_old[OF renderer_step_keeps] show ?thesis
    by (simp add: Let_def)
qed

lemma rendered_batch_append:
  "rendered_batch (as @ bs) first = rendered_batch as first @ rendered_batch bs (first + length as)"
proof (induction bs rule: rev_induct)
  case Nil
  show ?case by simp
next
  case (snoc b bs)
  have "rendered_batch (as @ bs @ [b]) first = rendered_batch ((as @ bs) @ [b]) first" by simp
  also have "\<dots> = rendered_batch (as @ bs) first @ [renderBlock b (first + length (as @ bs))]"
    by (rule rendered_batch_snoc)
  finally show ?case using snoc.IH by (simp add: rendered_batch_snoc add.assoc)
qed

lemma rendered_batch_Cons:
  "rendered_batch (b # bs) first = renderBlock b first # rendered_batch bs (Suc first)"
  using rendered_batch_append[of "[b]" bs first] rendered_batch_snoc[of "[]" b first] by simp

lemma foldl_render_one_tail:
  assumes "foldl render_one (r, f) post = (r', f')"
    and "list_all (\<lambda>b. \<not> is_temp (block_id b)) (tl post)"
  shows "\<exists>kept. f' = kept @ rendered_batch post (nextElement r)"
proof (cases post)
  case Nil
  with assms show ?thesis by simp
next
  case (Cons b rest)
  obtain r1 f1 where s: "render_one (r, f) b = (r1, f1)" by (cases "render_one (r, f) b")
  from render_one_elements[OF s] obtain P where
    f1: "f1 = filter P f @ [renderBlock b (nextElement r)]" by blast
  from render_one_fields(9)[OF s] have n1: "nextElement r1 = nextElement r + 1" .
  from assms Cons s have "foldl render_one (r1, f1) rest = (r', f')"
      "list_all (\<lambda>b. \<not> is_temp (block_id b)) rest" by simp_all
  from foldl_render_one_plain[OF this]
  have "f' = f1 @ rendered_batch rest (nextElement r1)" by simp
  with f1 n1 Cons show ?thesis
    by (intro exI[of _ "filter P f"]) (simp add: rendered_batch_Cons)
qed

lemma foldl_render_one_split:
  assumes "foldl render_one (r, []) (pre @ post) = (r', f')"
    and "list_all (\<lambda>b. \<not> is_temp (block_id b)) (tl post)"
  shows "\<exists>kept. f' = kept @ rendered_batch post (nextElement r + length pre)"
proof -
  obtain rp fp where p: "foldl render_one (r, []) pre = (rp, fp)"
    by (cases "foldl render_one (r, []) pre")
  from foldl_render_one_fields[OF p] have n: "nextElement rp = nextElement r + length pre" by simp
  from assms(1) p have "foldl render_one (rp, fp) post = (r', f')" by simp
  from foldl_render_one_tail[OF this assms(2)] n show ?thesis by simp
qed

lemma scheduleRender_requests:
  assumes "rafId r = None"
  shows "rafId (scheduleRender r) = Some (nextHandle r)"
    and "frameRequests (scheduleRender r) = frameRequests r @ [(nextHandle r, RenderCallback)]"
  using assms by (simp_all add: scheduleRender_def)


lemma filter_fresh: "h \<notin> fst ` set xs \<Longrightarrow> filter (\<lambda>q. fst q \<noteq> h) (xs @ [(h, v)]) = xs"
  by (induction xs) auto

lemma filter_unrequested: "h \<notin> fst ` set xs \<Longrightarrow> filter (\<lambda>q. fst q \<noteq> h) xs = xs"
  by (induction xs) auto

lemma run_requested_frame:
  assumes "rafId r = None" "nextHandle r \<notin> fst ` set (frameRequests r)"
  shows "run_frame (nextHandle r) t (scheduleRender r)
      = renderPendingBlocks t (r\<lparr>nextHandle := nextHandle r + 1\<rparr>)"
proof -
  have n: "map_of (frameRequests r) (nextHandle r) = None"
    using assms(2) by (simp add: map_of_eq_None_iff)
  have fl: "filter (\<lambda>q. fst q \<noteq> nextHandle r) (frameRequests r) = frameRequests r"
    using assms(2) by (rule filter_unrequested)
  have eq: "r\<lparr>nextHandle := Suc (nextHandle r), rafId := None\<rparr> = r\<lparr>nextHandle := Suc (nextHandle r)\<rparr>"
    using assms(1) by (cases r) simp
  have "run_frame (nextHandle r) t (scheduleRender r)
      = renderPendingBlocks t (r\<lparr>nextHandle := Suc (nextHandle r), rafId := None\<rparr>)"
    using assms(1) n fl by (simp add: run_frame_def scheduleRender_def Let_def map_add_def)
  then show ?thesis unfolding eq by simp
qed

lemma set_update_subset: "set (AList.update k v al) \<subseteq> insert (k, v) (set al)"
  by (induction al) auto

lemma set_delete_subset: "set (AList.delete k al) \<subseteq> set al"
  by (auto simp: AList.delete_eq)

lemma inv3_add:
  assumes inv: "renderer_inv3 r f"
    and old: "\<forall>e \<in> set (container r @ f). eid e < nextElement r"
    and lt: "case lt of None \<Rightarrow> True | Some t \<Rightarrow> is_temp t"
  shows "renderer_inv3 (r\<lparr>lastTempBlockId := lt,
      renderedBlocks := AList.update (block_id b) (nextElement r) (renderedBlocks r),
      nextElement := nextElement r + 1\<rparr>) (f @ [renderBlock b (nextElement r)])"
proof -
  let ?new = "renderBlock b (nextElement r)"
  have new: "eid ?new = nextElement r" "dataset_blockId ?new = block_id b"
    by (simp_all add: renderBlock_def)
  have "e < nextElement r + 1
      \<and> (\<forall>x \<in> set (container r @ f @ [?new]). eid x = e \<longrightarrow> dataset_blockId x = k)"
    if "(k, e) \<in> set (AList.update (block_id b) (nextElement r) (renderedBlocks r))" for k e
  proof (cases "(k, e) = (block_id b, nextElement r)")
    case True
    from old have "\<forall>x \<in> set (container r @ f). eid x \<noteq> nextElement r"
      by (metis less_irrefl)
    with True new show ?thesis by auto
  next
    case False
    with that set_update_subset[of "block_id b" "nextElement r" "renderedBlocks r"]
    have "(k, e) \<in> set (renderedBlocks r)" by auto
    with inv have "e < nextElement r"
        "\<forall>x \<in> set (container r @ f). eid x = e \<longrightarrow> dataset_blockId x = k"
      unfolding renderer_inv3_def by auto
    with new show ?thesis by auto
  qed
  with lt show ?thesis unfolding renderer_inv3_def by auto
qed

lemma inv3_drop:
  assumes inv: "renderer_inv3 r f"
    and lt: "case lt of None \<Rightarrow> True | Some t \<Rightarrow> is_temp t"
  shows "renderer_inv3 (r\<lparr>container := remove_element old (container r),
                         renderedBlocks := AList.delete t (renderedBlocks r),
                         lastTempBlockId := lt\<rparr>) (remove_element old f)"
  using inv lt set_delete_subset[of t "renderedBlocks r"]
  unfolding renderer_inv3_def remove_element_def by fastforce

lemma inv3_removed:
  assumes inv: "renderer_inv3 r f" and t: "lastTempBlockId r = Some t"
    and m: "map_of (renderedBlocks r) t = Some old"
    and xs: "set xs \<subseteq> set (container r @ f)"
  shows "filter (\<lambda>e. \<not> is_temp (dataset_blockId e)) (remove_element old xs)
      = filter (\<lambda>e. \<not> is_temp (dataset_blockId e)) xs"
proof -
  from m have p: "(t, old) \<in> set (renderedBlocks r)" by (rule map_of_SomeD)
  from inv t have tt: "is_temp t" unfolding renderer_inv3_def by simp
  have "is_temp (dataset_blockId x)" if "x \<in> set xs" "eid x = old" for x
    using inv p that xs tt unfolding renderer_inv3_def by fastforce
  then show ?thesis
    unfolding remove_element_def by (induction xs) auto
qed

lemma render_one_inv3:
  assumes i1: "renderer_inv r f" and i3: "renderer_inv3 r f"
    and step: "render_one (r, f) b = (r', f')"
  shows "renderer_inv3 r' f'
    \<and> filter (\<lambda>e. \<not> is_temp (dataset_blockId e)) (container r')
        = filter (\<lambda>e. \<not> is_temp (dataset_blockId e)) (container r)
    \<and> filter (\<lambda>e. \<not> is_temp (dataset_blockId e)) f'
        = filter (\<lambda>e. \<not> is_temp (dataset_blockId e)) (f @ [renderBlock b (nextElement r)])"
proof -
  from i1 have old: "\<forall>e \<in> set (container r @ f). eid e < nextElement r"
    unfolding renderer_inv_def by blast
  show ?thesis
  proof (cases "is_temp (block_id b)")
    case False
    from inv3_add[OF i3 old, of "lastTempBlockId r" b] i3
    have "renderer_inv3 (r\<lparr>lastTempBlockId := lastTempBlockId r,
        renderedBlocks := AList.update (block_id b) (nextElement r) (renderedBlocks r),
        nextElement := nextElement r + 1\<rparr>) (f @ [renderBlock b (nextElement r)])"
      unfolding renderer_inv3_def by simp
    moreover from step False have "r' = r\<lparr>lastTempBlockId := lastTempBlockId r,
        renderedBlocks := AList.update (block_id b) (nextElement r) (renderedBlocks r),
        nextElement := nextElement r + 1\<rparr>" "f' = f @ [renderBlock b (nextElement r)]"
      by (auto simp: render_one_def Let_def renderBlock_def)
    ultimately show ?thesis by simp
  next
    case True
    note temp = this
    have nt: "filter (\<lambda>e. \<not> is_temp (dataset_blockId e)) [renderBlock b n] = []" for n
      using temp by (simp add: renderBlock_def)
    show ?thesis
    proof (cases "\<exists>t old. lastTempBlockId r = Some t \<and> t \<noteq> [] \<and> map_of (renderedBlocks r) t = Some old")
      case True
      then obtain t old where t: "lastTempBlockId r = Some t" "t \<noteq> []"
          "map_of (renderedBlocks r) t = Some old" by blast
      let ?ra = "r\<lparr>container := remove_element old (container r),
                    renderedBlocks := AList.delete t (renderedBlocks r),
                    lastTempBlockId := Some t\<rparr>"
      from i3 t(1) have tt: "case Some t of None \<Rightarrow> True | Some t \<Rightarrow> is_temp t"
        unfolding renderer_inv3_def by simp
      from inv3_drop[OF i3 tt] have ia: "renderer_inv3 ?ra (remove_element old f)" .
      have olda: "\<forall>e \<in> set (container ?ra @ remove_element old f). eid e < nextElement ?ra"
        using old by (auto simp: remove_element_def)
      have tb: "case Some (block_id b) of None \<Rightarrow> True | Some t \<Rightarrow> is_temp t"
        using temp by simp
      from inv3_add[OF ia olda tb, of b]
      have "renderer_inv3 (?ra\<lparr>lastTempBlockId := Some (block_id b),
        renderedBlocks := AList.update (block_id b) (nextElement ?ra) (renderedBlocks ?ra),
        nextElement := nextElement ?ra + 1\<rparr>) (remove_element old f @ [renderBlock b (nextElement ?ra)])" .
      moreover from step temp t have r': "r' = ?ra\<lparr>lastTempBlockId := Some (block_id b),
        renderedBlocks := AList.update (block_id b) (nextElement ?ra) (renderedBlocks ?ra),
        nextElement := nextElement ?ra + 1\<rparr>"
        "f' = remove_element old f @ [renderBlock b (nextElement ?ra)]"
        by (auto simp: render_one_def Let_def renderBlock_def)
      moreover have "filter (\<lambda>e. \<not> is_temp (dataset_blockId e)) (remove_element old (container r))
          = filter (\<lambda>e. \<not> is_temp (dataset_blockId e)) (container r)"
        by (rule inv3_removed[OF i3 t(1) t(3)]) simp
      moreover have "filter (\<lambda>e. \<not> is_temp (dataset_blockId e)) (remove_element old f)
          = filter (\<lambda>e. \<not> is_temp (dataset_blockId e)) f"
        by (rule inv3_removed[OF i3 t(1) t(3)]) simp
      ultimately show ?thesis using nt by simp
    next
      case False
      then have un: "lastTempBlockId r = None \<or> (\<exists>t. lastTempBlockId r = Some t
          \<and> (t = [] \<or> map_of (renderedBlocks r) t = None))"
        by (cases "lastTempBlockId r") auto
      have tb: "case Some (block_id b) of None \<Rightarrow> True | Some t \<Rightarrow> is_temp t"
        using temp by simp
      from inv3_add[OF i3 old tb, of b]
      have "renderer_inv3 (r\<lparr>lastTempBlockId := Some (block_id b),
        renderedBlocks := AList.update (block_id b) (nextElement r) (renderedBlocks r),
        nextElement := nextElement r + 1\<rparr>) (f @ [renderBlock b (nextElement r)])" .
      moreover from step temp un have "r' = r\<lparr>lastTempBlockId := Some (block_id b),
        renderedBlocks := AList.update (block_id b) (nextElement r) (renderedBlocks r),
        nextElement := nextElement r + 1\<rparr>" "f' = f @ [renderBlock b (nextElement r)]"
        by (auto simp: render_one_def Let_def renderBlock_def split: option.splits)
      ultimately show ?thesis by simp
    qed
  qed
qed

lemma foldl_render_one_inv3:
  assumes "renderer_inv r f" "renderer_inv3 r f" "foldl render_one (r, f) chunk = (r', f')"
  shows "renderer_inv3 r' f'
    \<and> filter (\<lambda>e. \<not> is_temp (dataset_blockId e)) (container r')
        = filter (\<lambda>e. \<not> is_temp (dataset_blockId e)) (container r)
    \<and> filter (\<lambda>e. \<not> is_temp (dataset_blockId e)) f'
        = filter (\<lambda>e. \<not> is_temp (dataset_blockId e)) (f @ rendered_batch chunk (nextElement r))"
  using assms
proof (induction chunk arbitrary: r f)
  case Nil
  then show ?case by simp
next
  case (Cons b chunk)
  obtain r1 f1 where s: "render_one (r, f) b = (r1, f1)" by (cases "render_one (r, f) b")
  note one = render_one_inv3[OF Cons.prems(1,2) s]
  from render_one_inv[OF Cons.prems(1) s] have i1: "renderer_inv r1 f1" .
  from one have i3: "renderer_inv3 r1 f1" by simp
  from Cons.prems(3) s have rest: "foldl render_one (r1, f1) chunk = (r', f')" by simp
  from render_one_fields(9)[OF s] have n1: "nextElement r1 = Suc (nextElement r)" by simp
  from Cons.IH[OF i1 i3 rest] one n1 show ?case
    by (simp add: rendered_batch_Cons)
qed

lemma renderer_inv3_cong:
  "renderer_inv3 r f \<Longrightarrow> container r' @ f' = container r @ f
    \<Longrightarrow> renderedBlocks r' = renderedBlocks r \<Longrightarrow> nextElement r' = nextElement r
    \<Longrightarrow> lastTempBlockId r' = lastTempBlockId r \<Longrightarrow> renderer_inv3 r' f'"
  unfolding renderer_inv3_def by simp

lemma renderPendingBlocks_inv3:
  assumes i1: "renderer_inv r []" and i3: "renderer_inv3 r []"
  shows "renderer_inv3 (renderPendingBlocks t r) []
    \<and> filter (\<lambda>e. \<not> is_temp (dataset_blockId e)) (container (renderPendingBlocks t r))
        = filter (\<lambda>e. \<not> is_temp (dataset_blockId e)) (container r)
          @ (if isRendering r then []
             else filter (\<lambda>e. \<not> is_temp (dataset_blockId e))
                    (rendered_batch (take (nat (chunkSize r)) (pendingBlocks r)) (nextElement r)))"
proof (cases "isRendering r \<or> length (pendingBlocks r) = 0")
  case True
  with assms show ?thesis by (auto simp: renderPendingBlocks_def)
next
  case False
  define r2 where "r2 = r\<lparr>isRendering := True,
      pendingBlocks := drop (nat (max 0 (chunkSize r))) (pendingBlocks r)\<rparr>"
  have i12: "renderer_inv r2 []"
    using i1 by (rule renderer_inv_cong) (simp_all add: r2_def)
  have i32: "renderer_inv3 r2 []"
    using i3 by (rule renderer_inv3_cong) (simp_all add: r2_def)
  obtain r3 fragment where f: "foldl render_one (r2, []) (take (nat (max 0 (chunkSize r))) (pendingBlocks r))
      = (r3, fragment)" by fastforce
  note fl = foldl_render_one_inv3[OF i12 i32 f]
  have c: "container (renderPendingBlocks t r) = container r3 @ fragment"
    using False f unfolding renderPendingBlocks_def
    by (simp add: Let_def r2_def scrollToBottom_def)
  have "renderer_inv3 (renderPendingBlocks t r) []"
    using False f unfolding renderPendingBlocks_def
    by (intro renderer_inv3_cong[OF fl[THEN conjunct1]])
       (simp_all add: Let_def r2_def scrollToBottom_def)
  moreover have "nat (max 0 (chunkSize r)) = nat (chunkSize r)" by simp
  ultimately show ?thesis using fl c False by (simp add: r2_def)
qed

lemma scheduleRender_inv3: "renderer_inv3 r [] \<Longrightarrow> renderer_inv3 (scheduleRender r) []"
  by (erule renderer_inv3_cong) (simp_all add: scheduleRender_def)

lemma appendBlocks_inv3:
  assumes inv: "renderer_inv3 r []"
  shows "renderer_inv3 (appendBlocks bs r) []"
proof -
  let ?r1 = "(case (lastTempBlockId r, bs) of
           (Some t, b # _) \<Rightarrow>
             if t \<noteq> [] then
               (case map_of (renderedBlocks r) t of
                  Some tempElement \<Rightarrow>
                    if \<not> is_temp (block_id b) then
                      r\<lparr>container := remove_element tempElement (container r),
                        renderedBlocks := AList.delete t (renderedBlocks r),
                        lastTempBlockId := None\<rparr>
                    else r
                | None \<Rightarrow> r)
             else r
         | _ \<Rightarrow> r)"
  have "renderer_inv3 ?r1 []"
    using inv inv3_drop[OF inv, where lt = None]
    by (auto simp: remove_element_def split: option.splits list.splits)
  then have "renderer_inv3 (?r1\<lparr>pendingBlocks := pendingBlocks ?r1 @ bs\<rparr>) []"
    by (rule renderer_inv3_cong) simp_all
  then show ?thesis
    unfolding appendBlocks_def Let_def by (rule scheduleRender_inv3)
qed

lemma clear_renderer_inv3: "renderer_inv3 r [] \<Longrightarrow> renderer_inv3 (clear_renderer r) []"
  by (simp add: renderer_inv3_def clear_renderer_def split: option.splits)

lemma run_frame_inv3:
  "renderer_inv r [] \<Longrightarrow> renderer_inv3 r [] \<Longrightarrow> renderer_inv3 (run_frame h t r) []"
proof -
  assume a: "renderer_inv r []" "renderer_inv3 r []"
  let ?r1 = "r\<lparr>frameRequests := filter (\<lambda>q. fst q \<noteq> h) (frameRequests r)\<rparr>"
  have 1: "renderer_inv3 ?r1 []" using a(2) by (rule renderer_inv3_cong) simp_all
  have "renderer_inv (?r1\<lparr>rafId := None\<rparr>) []" using a(1) by (rule renderer_inv_cong) simp_all
  moreover have "renderer_inv3 (?r1\<lparr>rafId := None\<rparr>) []"
    using a(2) by (rule renderer_inv3_cong) simp_all
  ultimately have "renderer_inv3 (renderPendingBlocks t (?r1\<lparr>rafId := None\<rparr>)) []"
    using renderPendingBlocks_inv3 by blast
  with 1 a(2) show ?thesis
    unfolding run_frame_def Let_def by (auto split: option.splits frame_callback.splits)
qed

lemma fire_timeout_inv3: "renderer_inv3 r [] \<Longrightarrow> renderer_inv3 (fire_timeout i r) []"
  unfolding fire_timeout_def
  by (auto intro!: scheduleRender_inv3 elim: renderer_inv3_cong)

lemma renderer_run_inv3: "renderer_inv3 (renderer_run cs db evs) []"
proof -
  have "renderer_inv r [] \<Longrightarrow> renderer_inv3 r []
      \<Longrightarrow> renderer_inv3 (foldl renderer_step r evs) []" for r
  proof (induction evs arbitrary: r)
    case Nil
    then show ?case by simp
  next
    case (Cons ev evs)
    have "renderer_inv3 (renderer_step r ev) []"
      using Cons.prems
      by (cases ev) (simp_all add: appendBlocks_inv3 run_frame_inv3 fire_timeout_inv3
          clear_renderer_inv3)
    with Cons.IH[OF renderer_step_inv[OF Cons.prems(1)]] show ?case by simp
  qed
  moreover have "renderer_inv (new_renderer cs db) []" "renderer_inv3 (new_renderer cs db) []"
    by (simp_all add: renderer_inv_def renderer_inv3_def new_renderer_def)
  ultimately show ?thesis by (simp add: renderer_run_def)
qed

lemma renderPendingBlocks_pass:
  fixes r :: IncrementalRenderer and t :: real
  assumes a: "\<not> isRendering r" "pendingBlocks r \<noteq> []"
  defines "chunk \<equiv> take (nat (chunkSize r)) (pendingBlocks r)"
  defines "r' \<equiv> renderPendingBlocks t r"
  shows "pendingBlocks r' = drop (nat (chunkSize r)) (pendingBlocks r)"
    and "\<exists>kept shown. container r' = kept @ shown \<and> subseq kept (container r)
          \<and> subseq shown (rendered_batch chunk (nextElement r))"
    and "list_all (\<lambda>b. \<not> is_temp (block_id b)) chunk \<Longrightarrow>
          container r' = container r @ rendered_batch chunk (nextElement r)"
    and "chunk = pre @ post \<Longrightarrow> list_all (\<lambda>b. \<not> is_temp (block_id b)) (tl post) \<Longrightarrow>
          \<exists>kept. container r' = kept @ rendered_batch post (nextElement r + length pre)"
    and "timeouts r' = timeouts r @
          (if pendingBlocks r' = [] then [] else [if t > 16 then min (debounceMs r) 8 else 0])"
    and "frameRequests r' = frameRequests r @ [(nextHandle r, ScrollCallback)]"
    and "nextHandle r' = nextHandle r + 1"
    and "\<not> isRendering r'" and "rafId r' = rafId r"
    and "nextElement r' = nextElement r + length chunk"
    and "chunkSize r' = chunkSize r"
proof -
  define n where "n = nat (chunkSize r)"
  have n: "nat (max 0 (chunkSize r)) = n" by (simp add: n_def)
  define r2 where "r2 = r\<lparr>isRendering := True, pendingBlocks := drop n (pendingBlocks r)\<rparr>"
  obtain r3 fragment where f: "foldl render_one (r2, []) chunk = (r3, fragment)"
    by (cases "foldl render_one (r2, []) chunk")
  note fl = foldl_render_one_fields[OF f]
  have r': "r' = (let r6 = (scrollToBottom (r3\<lparr>container := container r3 @ fragment\<rparr>))\<lparr>isRendering := False\<rparr>
      in if length (pendingBlocks r6) > 0
         then r6\<lparr>timeouts := timeouts r6 @ [if t > 16 then min (debounceMs r6) 8 else 0]\<rparr>
         else r6)"
    using a f unfolding r'_def renderPendingBlocks_def
    by (simp add: Let_def n chunk_def r2_def n_def[symmetric])
  show pend: "pendingBlocks r' = drop (nat (chunkSize r)) (pendingBlocks r)"
    using fl by (simp add: r' Let_def scrollToBottom_def r2_def n_def)
  have cont: "container r' = container r3 @ fragment"
    by (simp add: r' Let_def scrollToBottom_def)
  show "timeouts r' = timeouts r @
      (if pendingBlocks r' = [] then [] else [if t > 16 then min (debounceMs r) 8 else 0])"
    using fl pend by (simp add: r' Let_def scrollToBottom_def r2_def n_def)
  show "frameRequests r' = frameRequests r @ [(nextHandle r, ScrollCallback)]"
    using fl by (simp add: r' Let_def scrollToBottom_def r2_def)
  show "nextHandle r' = nextHandle r + 1"
    using fl by (simp add: r' Let_def scrollToBottom_def r2_def)
  show "\<not> isRendering r'" "rafId r' = rafId r"
    using fl by (simp_all add: r' Let_def scrollToBottom_def r2_def)
  show "nextElement r' = nextElement r + length chunk" "chunkSize r' = chunkSize r"
    using fl by (simp_all add: r' Let_def scrollToBottom_def r2_def)
  show "\<exists>kept shown. container r' = kept @ shown \<and> subseq kept (container r)
      \<and> subseq shown (rendered_batch chunk (nextElement r))"
    using foldl_render_one_elements[OF f] cont by (auto simp: r2_def)
  show "container r' = container r @ rendered_batch chunk (nextElement r)"
    if "list_all (\<lambda>b. \<not> is_temp (block_id b)) chunk"
    using foldl_render_one_plain[OF f that] cont by (auto simp: r2_def)
  show "\<exists>kept. container r' = kept @ rendered_batch post (nextElement r + length pre)"
    if "chunk = pre @ post" "list_all (\<lambda>b. \<not> is_temp (block_id b)) (tl post)"
  proof -
    from f that(1) have "foldl render_one (r2, []) (pre @ post) = (r3, fragment)" by simp
    from foldl_render_one_split[OF this that(2)] obtain kept where
      "fragment = kept @ rendered_batch post (nextElement r2 + length pre)" by blast
    with cont have "container r' = (container r3 @ kept) @ rendered_batch post (nextElement r + length pre)"
      by (simp add: r2_def)
    then show ?thesis by blast
  qed
qed

lemma fire_timeout_last:
  assumes "rafId r = None" "timeouts r = ts @ [d]"
  shows "rafId (fire_timeout (length ts) r) = Some (nextHandle r)"
    and "timeouts (fire_timeout (length ts) r) = ts"
    and "frameRequests (fire_timeout (length ts) r) = frameRequests r @ [(nextHandle r, RenderCallback)]"
  using assms by (simp_all add: fire_timeout_def scheduleRender_def)

text \<open>
  C8, as the code has it: a render pass that finds a pass in progress, or nothing pending,
  does nothing, and \<open>scheduleRender\<close> does nothing while an animation frame is requested;
  otherwise it requests one frame, whose callback is the render pass. A pass takes the
  first \<open>chunkSize\<close> blocks of the pending queue (none when \<open>chunkSize\<close> is negative)
  and leaves the others in order. What it appends to the container is, in order, among
  the elements rendered for these blocks, after the elements it kept: all of them when no
  block of the chunk is provisional, and in any case those from the last provisional block
  of the chunk on. When blocks are still pending, the pass sets one timeout whose callback
  is \<open>scheduleRender\<close>: after \<open>min debounceMs 8\<close> milliseconds when the pass took more
  than 16, at once otherwise. After any run of the renderer, a pass appends the elements
  of all blocks of the chunk that are not provisional and removes none of the container.
\<close>

theorem drain_pass:
  "(isRendering r \<or> pendingBlocks r = [] \<longrightarrow> renderPendingBlocks t r = r)
   \<and> (rafId r \<noteq> None \<longrightarrow> scheduleRender r = r)
   \<and> (rafId r = None \<longrightarrow>
        rafId (scheduleRender r) = Some (nextHandle r)
        \<and> frameRequests (scheduleRender r) = frameRequests r @ [(nextHandle r, RenderCallback)]
        \<and> (nextHandle r \<notin> fst ` set (frameRequests r) \<longrightarrow>
             run_frame (nextHandle r) t (scheduleRender r)
               = renderPendingBlocks t (r\<lparr>nextHandle := nextHandle r + 1\<rparr>)))
   \<and> (\<not> isRendering r \<and> pendingBlocks r \<noteq> [] \<longrightarrow>
       (let chunk = take (nat (chunkSize r)) (pendingBlocks r);
            r' = renderPendingBlocks t r
        in pendingBlocks r = chunk @ pendingBlocks r'
           \<and> length chunk = min (length (pendingBlocks r)) (nat (chunkSize r))
           \<and> (\<exists>kept shown. container r' = kept @ shown \<and> subseq kept (container r)
                 \<and> subseq shown (rendered_batch chunk (nextElement r)))
           \<and> (list_all (\<lambda>b. \<not> is_temp (block_id b)) chunk \<longrightarrow>
                 container r' = container r @ rendered_batch chunk (nextElement r))
           \<and> (\<forall>pre post. chunk = pre @ post \<and> list_all (\<lambda>b. \<not> is_temp (block_id b)) (tl post) \<longrightarrow>
                 (\<exists>kept. container r' = kept @ rendered_batch post (nextElement r + length pre)))
           \<and> timeouts r' = timeouts r @
                 (if pendingBlocks r' = [] then []
                  else [if t > 16 then min (debounceMs r) 8 else 0])
           \<and> (pendingBlocks r' \<noteq> [] \<and> rafId r = None \<longrightarrow>
                 rafId (fire_timeout (length (timeouts r)) r') = Some (nextHandle r')
                 \<and> frameRequests (fire_timeout (length (timeouts r)) r')
                     = frameRequests r' @ [(nextHandle r', RenderCallback)]
                 \<and> timeouts (fire_timeout (length (timeouts r)) r') = timeouts r)
           \<and> \<not> isRendering r' \<and> rafId r' = rafId r))
   \<and> (let r0 = renderer_run cs db evs; r1 = renderPendingBlocks t r0 in
        filter (\<lambda>e. \<not> is_temp (dataset_blockId e)) (container r1)
          = filter (\<lambda>e. \<not> is_temp (dataset_blockId e)) (container r0)
            @ (if isRendering r0 then []
               else filter (\<lambda>e. \<not> is_temp (dataset_blockId e))
                      (rendered_batch (take (nat (chunkSize r0)) (pendingBlocks r0)) (nextElement r0))))"
proof (intro conjI impI)
  assume "isRendering r \<or> pendingBlocks r = []"
  then show "renderPendingBlocks t r = r" by (auto simp: renderPendingBlocks_def)
next
  assume "rafId r \<noteq> None"
  then show "scheduleRender r = r" by (simp add: scheduleRender_def)
next
  assume "rafId r = None"
  then show "rafId (scheduleRender r) = Some (nextHandle r)"
    and "frameRequests (scheduleRender r) = frameRequests r @ [(nextHandle r, RenderCallback)]"
    by (rule scheduleRender_requests)+
next
  assume "rafId r = None" "nextHandle r \<notin> fst ` set (frameRequests r)"
  then show "run_frame (nextHandle r) t (scheduleRender r)
      = renderPendingBlocks t (r\<lparr>nextHandle := nextHandle r + 1\<rparr>)"
    by (rule run_requested_frame)
next
  assume a: "\<not> isRendering r \<and> pendingBlocks r \<noteq> []"
  then have a1: "\<not> isRendering r" and a2: "pendingBlocks r \<noteq> []" by simp_all
  note p = renderPendingBlocks_pass[OF a1 a2, where t = t]
  define chunk where "chunk = take (nat (chunkSize r)) (pendingBlocks r)"
  define r' where "r' = renderPendingBlocks t r"
  have 1: "pendingBlocks r = chunk @ pendingBlocks r'"
    unfolding chunk_def r'_def p(1) by simp
  have 2: "length chunk = min (length (pendingBlocks r)) (nat (chunkSize r))"
    by (simp add: chunk_def)
  have 5: "\<forall>pre post. chunk = pre @ post \<and> list_all (\<lambda>b. \<not> is_temp (block_id b)) (tl post) \<longrightarrow>
                 (\<exists>kept. container r' = kept @ rendered_batch post (nextElement r + length pre))"
    unfolding chunk_def r'_def using p(4) by blast
  have 7: "rafId (fire_timeout (length (timeouts r)) r') = Some (nextHandle r')
         \<and> frameRequests (fire_timeout (length (timeouts r)) r')
             = frameRequests r' @ [(nextHandle r', RenderCallback)]
         \<and> timeouts (fire_timeout (length (timeouts r)) r') = timeouts r"
    if "pendingBlocks r' \<noteq> [] \<and> rafId r = None"
  proof -
    from that p(5,9) have "rafId r' = None"
        "timeouts r' = timeouts r @ [if t > 16 then min (debounceMs r) 8 else 0]"
      unfolding r'_def by simp_all
    from fire_timeout_last[OF this] show ?thesis by simp
  qed
  show "let chunk = take (nat (chunkSize r)) (pendingBlocks r);
            r' = renderPendingBlocks t r
        in pendingBlocks r = chunk @ pendingBlocks r'
           \<and> length chunk = min (length (pendingBlocks r)) (nat (chunkSize r))
           \<and> (\<exists>kept shown. container r' = kept @ shown \<and> subseq kept (container r)
                 \<and> subseq shown (rendered_batch chunk (nextElement r)))
           \<and> (list_all (\<lambda>b. \<not> is_temp (block_id b)) chunk \<longrightarrow>
                 container r' = container r @ rendered_batch chunk (nextElement r))
           \<and> (\<forall>pre post. chunk = pre @ post \<and> list_all (\<lambda>b. \<not> is_temp (block_id b)) (tl post) \<longrightarrow>
                 (\<exists>kept. container r' = kept @ rendered_batch post (nextElement r + length pre)))
           \<and> timeouts r' = timeouts r @
                 (if pendingBlocks r' = [] then []
                  else [if t > 16 then min (debounceMs r) 8 else 0])
           \<and> (pendingBlocks r' \<noteq> [] \<and> rafId r = None \<longrightarrow>
                 rafId (fire_timeout (length (timeouts r)) r') = Some (nextHandle r')
                 \<and> frameRequests (fire_timeout (length (timeouts r)) r')
                     = frameRequests r' @ [(nextHandle r', RenderCallback)]
                 \<and> timeouts (fire_timeout (length (timeouts r)) r') = timeouts r)
           \<and> \<not> isRendering r' \<and> rafId r' = rafId r"
    unfolding Let_def chunk_def[symmetric] r'_def[symmetric]
    using 1 2 5 7 p(2,3,5,8,9) unfolding chunk_def[symmetric] r'_def[symmetric]
    by blast
next
  show "let r0 = renderer_run cs db evs; r1 = renderPendingBlocks t r0 in
        filter (\<lambda>e. \<not> is_temp (dataset_blockId e)) (container r1)
          = filter (\<lambda>e. \<not> is_temp (dataset_blockId e)) (container r0)
            @ (if isRendering r0 then []
               else filter (\<lambda>e. \<not> is_temp (dataset_blockId e))
                      (rendered_batch (take (nat (chunkSize r0)) (pendingBlocks r0)) (nextElement r0)))"
    unfolding Let_def
    using renderPendingBlocks_inv3[OF renderer_run_inv[of cs db evs] renderer_run_inv3[of cs db evs], where t = t]
    by (rule conjunct2)
qed

lemma sample_not_temp [simp]:
  "\<not> is_temp (block_id (sample_block (js ''a'') x))"
  "\<not> is_temp (block_id (sample_block (js ''b'') x))"
  "\<not> is_temp (block_id (sample_block (js ''c'') x))"
  by (simp_all add: sample_block_def is_temp_def startsWith_def js_def)

theorem drain_pass_witness:
  "(let r = new_renderer 2 16 in
      pendingBlocks r = [] \<and> renderPendingBlocks 20 r = r
      \<and> rafId r = None \<and> rafId (scheduleRender r) = Some 1
      \<and> run_frame 1 20 (scheduleRender r) = renderPendingBlocks 20 (r\<lparr>nextHandle := 2\<rparr>))
   \<and> (let r = appendBlocks sample_blocks (new_renderer 2 16);
           r' = renderPendingBlocks 20 r in
       rafId r \<noteq> None \<and> scheduleRender r = r
       \<and> \<not> isRendering r \<and> pendingBlocks r \<noteq> []
       \<and> pendingBlocks r' = [sample_block (js ''c'') (js ''z'')]
       \<and> container r' = rendered_batch [sample_block (js ''a'') (js ''x''),
                                          sample_block (js ''b'') (js ''y'')] 0
       \<and> (\<exists>kept. container r' = kept @ rendered_batch [sample_block (js ''b'') (js ''y'')] 1)
       \<and> timeouts r' = [8])
   \<and> (let r = (new_renderer 2 16)\<lparr>pendingBlocks := sample_blocks\<rparr>;
           r' = renderPendingBlocks 20 r in
       pendingBlocks r' \<noteq> [] \<and> rafId r = None \<and> rafId (fire_timeout 0 r') = Some 2)"
proof -
  define a where "a = sample_block (js ''a'') (js ''x'')"
  define b where "b = sample_block (js ''b'') (js ''y'')"
  define c where "c = sample_block (js ''c'') (js ''z'')"
  have sb: "sample_blocks = [a, b, c]" by (simp add: sample_blocks_def a_def b_def c_def)
  have nt: "\<not> is_temp (block_id a)" "\<not> is_temp (block_id b)" "\<not> is_temp (block_id c)"
    by (simp_all add: a_def b_def c_def)
  define r0 where "r0 = new_renderer 2 16"
  have r0: "pendingBlocks r0 = []" "rafId r0 = None" "nextHandle r0 = 1" "frameRequests r0 = []"
    by (simp_all add: r0_def new_renderer_def)
  note t0 = drain_pass[of r0 20]
  have 01: "renderPendingBlocks 20 r0 = r0"
    using t0[THEN conjunct1] r0(1) by simp
  have 02: "rafId (scheduleRender r0) = Some 1"
    using t0[THEN conjunct2, THEN conjunct2, THEN conjunct1] r0(2,3) by simp
  have 03: "run_frame 1 20 (scheduleRender r0) = renderPendingBlocks 20 (r0\<lparr>nextHandle := 2\<rparr>)"
    using t0[THEN conjunct2, THEN conjunct2, THEN conjunct1] r0(2,3,4)
    by (simp add: numeral_2_eq_2)
  define r1 where "r1 = appendBlocks sample_blocks r0"
  define r1' where "r1' = renderPendingBlocks 20 r1"
  have r1: "pendingBlocks r1 = [a, b, c]" "rafId r1 = Some 1" "\<not> isRendering r1" "chunkSize r1 = 2"
      "nextElement r1 = 0" "timeouts r1 = []" "container r1 = []" "debounceMs r1 = 16"
    by (simp_all add: r1_def r0_def sb appendBlocks_def new_renderer_def scheduleRender_def Let_def)
  note t1 = drain_pass[of r1 20]
  have 11: "scheduleRender r1 = r1"
    using t1[THEN conjunct2, THEN conjunct1] r1(2) by simp
  have hyp1: "\<not> isRendering r1 \<and> pendingBlocks r1 \<noteq> []" using r1 by simp
  have ch: "take (nat (chunkSize r1)) (pendingBlocks r1) = [a, b]"
    by (simp add: r1 numeral_2_eq_2)
  note p1 = t1[THEN conjunct2, THEN conjunct2, THEN conjunct2, THEN conjunct1, THEN mp, OF hyp1,
      unfolded Let_def ch, folded r1'_def]
  have 12: "pendingBlocks r1' = [c]"
    using p1[THEN conjunct1] r1(1) by simp
  have 13: "container r1' = rendered_batch [a, b] 0"
    using p1[THEN conjunct2, THEN conjunct2, THEN conjunct2, THEN conjunct1] nt r1(5,7) by simp
  have "[a, b] = [a] @ [b] \<and> list_all (\<lambda>b. \<not> is_temp (block_id b)) (tl [b])" by simp
  with p1[THEN conjunct2, THEN conjunct2, THEN conjunct2, THEN conjunct2, THEN conjunct1]
  have "\<exists>kept. container r1' = kept @ rendered_batch [b] (nextElement r1 + length [a])"
    by blast
  then have 14: "\<exists>kept. container r1' = kept @ rendered_batch [b] 1" by (simp add: r1)
  have 15: "timeouts r1' = [8]"
    using p1[THEN conjunct2, THEN conjunct2, THEN conjunct2, THEN conjunct2, THEN conjunct2,
        THEN conjunct1] 12 r1(6,8) by simp
  define r2 where "r2 = r0\<lparr>pendingBlocks := sample_blocks\<rparr>"
  define r2' where "r2' = renderPendingBlocks 20 r2"
  have r2: "pendingBlocks r2 = [a, b, c]" "rafId r2 = None" "\<not> isRendering r2" "chunkSize r2 = 2"
      "timeouts r2 = []" "nextHandle r2 = 1"
    by (simp_all add: r2_def r0_def sb new_renderer_def)
  note t2 = drain_pass[of r2 20]
  have hyp2: "\<not> isRendering r2 \<and> pendingBlocks r2 \<noteq> []" using r2 by simp
  have ch2: "take (nat (chunkSize r2)) (pendingBlocks r2) = [a, b]"
    by (simp add: r2 numeral_2_eq_2)
  note p2 = t2[THEN conjunct2, THEN conjunct2, THEN conjunct2, THEN conjunct1, THEN mp, OF hyp2,
      unfolded Let_def ch2, folded r2'_def]
  have 21: "pendingBlocks r2' = [c]"
    using p2[THEN conjunct1] r2(1) by simp
  have nh: "nextHandle r2' = 2"
    using renderPendingBlocks_pass(7)[of r2 20] r2 by (simp add: r2'_def)
  have 22: "rafId (fire_timeout 0 r2') = Some 2"
    using p2[THEN conjunct2, THEN conjunct2, THEN conjunct2, THEN conjunct2, THEN conjunct2,
        THEN conjunct2, THEN conjunct1] 21 r2(2,5) nh by simp
  show ?thesis
    unfolding Let_def r0_def[symmetric]
    unfolding r1_def[symmetric] r2_def[symmetric]
    unfolding r1'_def[symmetric] r2'_def[symmetric] a_def[symmetric] b_def[symmetric] c_def[symmetric]
    using r0 01 02 03 r1 11 12 13 14 15 r2 21 22 by simp
qed

text \<open>
  With \<open>debounceMs = 0\<close> the timeout after a pass of 100 milliseconds has the delay 0,
  as after a pass of 0 milliseconds: the next pass is not deferred. And a chunk of two
  provisional blocks leaves one element in the container: the element of the first
  block is removed in the same pass.
\<close>

theorem drain_pass_counterexample:
  "timeouts (renderPendingBlocks 100 (appendBlocks sample_blocks (new_renderer 2 0))) = [0]
   \<and> timeouts (renderPendingBlocks 0 (appendBlocks sample_blocks (new_renderer 2 0))) = [0]
   \<and> pendingBlocks (renderPendingBlocks 0
        (appendBlocks [sample_block (js ''__temp__1'') (js ''x''),
                       sample_block (js ''__temp__2'') (js ''y'')] (new_renderer 10 16))) = []
   \<and> container (renderPendingBlocks 0
        (appendBlocks [sample_block (js ''__temp__1'') (js ''x''),
                       sample_block (js ''__temp__2'') (js ''y'')] (new_renderer 10 16)))
       = [renderBlock (sample_block (js ''__temp__2'') (js ''y'')) 1]"
proof -
  have 1: "timeouts (renderPendingBlocks t (appendBlocks sample_blocks (new_renderer 2 0))) = [0]" for t
  proof -
    define r where "r = appendBlocks sample_blocks (new_renderer 2 0)"
    have r: "pendingBlocks r = sample_blocks" "\<not> isRendering r" "chunkSize r = 2"
      "timeouts r = []" "debounceMs r = 0"
      by (simp_all add: r_def appendBlocks_def new_renderer_def scheduleRender_def Let_def)
    then have ne: "pendingBlocks r \<noteq> []" by (simp add: sample_blocks_def)
    from renderPendingBlocks_pass(1,5)[OF r(2) ne, of t] r
    show ?thesis unfolding r_def[symmetric] by (simp add: sample_blocks_def numeral_2_eq_2)
  qed
  define t1 where "t1 = sample_block (js ''__temp__1'') (js ''x'')"
  define t2 where "t2 = sample_block (js ''__temp__2'') (js ''y'')"
  have tt: "is_temp (block_id t1)" "is_temp (block_id t2)" "block_id t1 \<noteq> []"
      "block_id t1 \<noteq> block_id t2"
    by (simp_all add: t1_def t2_def sample_block_def is_temp_def startsWith_def js_def)
  define r where "r = appendBlocks [t1, t2] (new_renderer 10 16)"
  have r: "r = (new_renderer 10 16)\<lparr>pendingBlocks := [t1, t2], rafId := Some 1,
      frameRequests := [(1, RenderCallback)], nextHandle := 2\<rparr>"
    by (simp add: r_def appendBlocks_def new_renderer_def scheduleRender_def Let_def)
  have 2: "pendingBlocks (renderPendingBlocks 0 r) = []
      \<and> container (renderPendingBlocks 0 r) = [renderBlock t2 1]"
    using tt
    by (simp add: r renderPendingBlocks_def new_renderer_def Let_def render_one_def
        scrollToBottom_def remove_element_def renderBlock_def)
  show ?thesis
    using 1[of 100] 1[of 0] 2 unfolding r_def t1_def t2_def by simp
qed

subsection \<open>The converter\<close>

lemma decimal_0 [simp]: "decimal 0 = [48]"
  by (subst decimal.simps) simp

lemma parseBlock_isl: "isl (parseBlock cv now c i) = isl (marked_parse cv c)"
  by (auto simp: parseBlock_def Let_def split: sum.splits)

lemma parseBlocks_from_isl:
  "isl (parseBlocks_from cv clock i spans) = list_ex (\<lambda>s. isl (marked_parse cv s)) spans"
proof (induction spans arbitrary: i)
  case Nil
  show ?case by simp
next
  case (Cons s spans)
  show ?case
    using Cons.IH[of "i + 1"] parseBlock_isl[of cv "clock i" s i]
    by (auto split: sum.splits)
qed

lemma parseBlocks_isl:
  "isl (parseBlocks cv clock spans) = list_ex (\<lambda>s. isl (marked_parse cv s)) spans"
  unfolding parseBlocks_def by (rule parseBlocks_from_isl)

lemma parseBlock_html:
  "parseBlock cv now c i = Inr blk \<Longrightarrow> html blk = sanitize cv (projr (marked_parse cv c))"
  by (auto simp: parseBlock_def Let_def split: sum.splits)

lemma parseBlocks_from_html:
  "parseBlocks_from cv clock i spans = Inr bs
    \<Longrightarrow> map html bs = map (\<lambda>s. sanitize cv (projr (marked_parse cv s))) spans"
  by (induction spans arbitrary: i bs) (auto split: sum.splits dest: parseBlock_html)

lemma parseBlocks_from_first_error:
  "parseBlocks_from cv clock i spans = Inl e
    \<Longrightarrow> find (\<lambda>s. isl (marked_parse cv s)) spans \<noteq> None
       \<and> e = projl (marked_parse cv (the (find (\<lambda>s. isl (marked_parse cv s)) spans)))"
proof (induction spans arbitrary: i)
  case Nil
  then show ?case by simp
next
  case (Cons s spans)
  show ?case
  proof (cases "marked_parse cv s")
    case (Inl a)
    with Cons.prems show ?thesis by (simp add: parseBlock_def Let_def)
  next
    case (Inr h)
    with Cons.prems have "parseBlocks_from cv clock (i + 1) spans = Inl e"
      by (auto simp: parseBlock_def Let_def split: sum.splits)
    from Cons.IH[OF this] Inr show ?thesis by simp
  qed
qed

lemma worker_loop_result:
  "worker_loop cv bs =
     (case find (\<lambda>b. isl (marked_parse cv (content b))) bs of
        Some b \<Rightarrow> Inl (projl (marked_parse cv (content b)))
      | None \<Rightarrow> Inr (map (\<lambda>b. b\<lparr>html := sanitize cv (projr (marked_parse cv (content b)))\<rparr>) bs))"
  by (induction bs) (auto split: sum.splits option.splits)

lemma escape_unit_safe:
  "list_all (\<lambda>d. d \<noteq> 0x3C \<and> d \<noteq> 0x3E \<and> d \<noteq> 0x22 \<and> d \<noteq> 0x27) (escape_unit c)"
  by (simp add: escape_unit_def js_def)

lemma escapeHtml_safe:
  "list_all (\<lambda>d. d \<noteq> 0x3C \<and> d \<noteq> 0x3E \<and> d \<noteq> 0x22 \<and> d \<noteq> 0x27) (escapeHtml t)"
  unfolding escapeHtml_def by (induction t) (simp_all add: escape_unit_safe)

lemmas string_eval = js_def trim_def is_space_def startsWith_def endsWith_def includes_str_def
  substring_def substring_from_def slice_from_def pop_def or_empty_def is_terminator_def
  split_sentences_def Let_def

lemma extract_A_two_paragraphs:
  "extractCompleteBlocks_A (js ''a\<newline>\<newline>b'') = ([js ''a''], js ''b'')"
  by (simp add: extractCompleteBlocks_A_def string_eval)

lemma splitIntoBlocks_blank: "splitIntoBlocks [] = []"
  by (simp add: splitIntoBlocks_def split_init_def split_line_def push_current_def string_eval
      is_table_line_def is_hr_def)

lemma extract_B_a: "extractCompleteBlocks_B (js ''a'') = Inr ([js ''a''], [])"
  by (simp add: extractCompleteBlocks_B_def isBlockComplete_def splitIntoBlocks_def split_init_def
      split_line_def push_current_def string_eval is_table_line_def is_hr_def)

text \<open>
  C5, as the code has it: \<open>clear\<close> empties the buffer, the processed blocks, the pending
  queue, the rendered blocks and the container, and cancels the requested animation
  frame; it does not cancel a conversion in flight and nothing marks its result as stale.
  When the conversion resolves after \<open>clear\<close>, \<open>deliver\<close> appends its blocks to the
  emptied processed blocks and to the emptied pending queue, and requests an animation
  frame that will render them.
\<close>

theorem clear_keeps_conversion_in_flight:
  "buffer (clear_B p) = [] \<and> processedBlocks (clear_B p) = []
   \<and> renderer (clear_B p) = clear_renderer (renderer p)
   \<and> buffer (clear_A q) = [] \<and> processedBlocks (clear_A q) = []
   \<and> renderer (clear_A q) = clear_renderer (renderer q)
   \<and> pendingBlocks (clear_renderer r) = [] \<and> renderedBlocks (clear_renderer r) = []
   \<and> container (clear_renderer r) = [] \<and> rafId (clear_renderer r) = None
   \<and> frameRequests (clear_renderer r)
       = filter (\<lambda>q. Some (fst q) \<noteq> rafId r) (frameRequests r)
   \<and> nextHandle (clear_renderer r) = nextHandle r
   \<and> buffer (deliver parsed (clear_B p)) = []
   \<and> processedBlocks (deliver parsed (clear_B p)) = parsed
   \<and> renderer (deliver parsed (clear_B p)) = appendBlocks parsed (clear_renderer (renderer p))
   \<and> buffer (deliver parsed (clear_A q)) = []
   \<and> processedBlocks (deliver parsed (clear_A q)) = parsed
   \<and> renderer (deliver parsed (clear_A q)) = appendBlocks parsed (clear_renderer (renderer q))
   \<and> pendingBlocks (appendBlocks parsed (clear_renderer r)) = parsed
   \<and> container (appendBlocks parsed (clear_renderer r)) = []
   \<and> rafId (appendBlocks parsed (clear_renderer r)) = Some (nextHandle r)
   \<and> frameRequests (appendBlocks parsed (clear_renderer r))
       = filter (\<lambda>q. Some (fst q) \<noteq> rafId r) (frameRequests r) @ [(nextHandle r, RenderCallback)]"
proof -
  have c: "pendingBlocks (clear_renderer r) = []" "renderedBlocks (clear_renderer r) = []"
    "container (clear_renderer r) = []" "rafId (clear_renderer r) = None"
    "nextHandle (clear_renderer r) = nextHandle r"
    by (simp_all add: clear_renderer_def split: option.splits)
  have f: "frameRequests (clear_renderer r)
       = filter (\<lambda>q. Some (fst q) \<noteq> rafId r) (frameRequests r)"
    by (cases "rafId r") (simp_all add: clear_renderer_def)
  have a: "appendBlocks parsed (clear_renderer r)
      = scheduleRender ((clear_renderer r)\<lparr>pendingBlocks := parsed\<rparr>)"
    using c by (simp add: appendBlocks_def Let_def split: option.splits list.splits)
  have d: "pendingBlocks (appendBlocks parsed (clear_renderer r)) = parsed"
    "container (appendBlocks parsed (clear_renderer r)) = []"
    "rafId (appendBlocks parsed (clear_renderer r)) = Some (nextHandle r)"
    "frameRequests (appendBlocks parsed (clear_renderer r))
       = filter (\<lambda>q. Some (fst q) \<noteq> rafId r) (frameRequests r) @ [(nextHandle r, RenderCallback)]"
    unfolding a using c f by (simp_all add: scheduleRender_def)
  show ?thesis
    using c f d by (simp add: clear_A_def clear_B_def deliver_def)
qed

text \<open>
  The second variant starts an \<open>append\<close> of \<open>a\<close>, which sends the span \<open>a\<close> to the
  converter; \<open>clear\<close> runs; the conversion resolves. The block of the span is then in
  the processed blocks.
\<close>

theorem clear_discards_conversion_counterexample:
  "append_begin_B (js ''a'') (new_processor_B 10 16) = Inr ([js ''a''], new_processor_B 10 16)
   \<and> parseBlocks plain_converter still_clock [js ''a'']
       = Inr [\<lparr>block_id = js ''block-0-0'', block_type = PARAGRAPH, content = js ''a'',
               html = js ''a'', startIndex = 0, endIndex = 0, level = None, language = None\<rparr>]
   \<and> processedBlocks (deliver
         [\<lparr>block_id = js ''block-0-0'', block_type = PARAGRAPH, content = js ''a'',
               html = js ''a'', startIndex = 0, endIndex = 0, level = None, language = None\<rparr>]
         (clear_B (new_processor_B 10 16)))
       = [\<lparr>block_id = js ''block-0-0'', block_type = PARAGRAPH, content = js ''a'',
               html = js ''a'', startIndex = 0, endIndex = 0, level = None, language = None\<rparr>]"
proof -
  have 1: "append_begin_B (js ''a'') (new_processor_B 10 16)
      = Inr ([js ''a''], new_processor_B 10 16)"
    using extract_B_a by (simp add: append_begin_B_def new_processor_B_def)
  have 2: "parseBlocks plain_converter still_clock [js ''a'']
       = Inr [\<lparr>block_id = js ''block-0-0'', block_type = PARAGRAPH, content = js ''a'',
               html = js ''a'', startIndex = 0, endIndex = 0, level = None, language = None\<rparr>]"
    by (simp add: parseBlocks_def parseBlock_def plain_converter_def still_clock_def
        detectBlockType_def extractHeadingLevel_def extractLanguage_def is_bullet_item_def
        is_numbered_item_def is_digit_def is_hr_def string_eval)
  show ?thesis using 1 2 by (simp add: deliver_def clear_B_def)
qed

text \<open>
  C6, as the code has it: the batch is converted entry by entry and the first rejection
  of the converter ends it. \<open>parseBlocks\<close> then rejects with that error and the worker
  answers with one \<open>error\<close> message, without any result. When no entry is rejected, the
  results are the entries in their order, each with its text and the sanitized markup of
  that text. Only the code renderer degrades a single code block: when the highlighter
  throws, or the language is unknown, the markup is the escaped code, which holds no
  angle bracket and no quote.
\<close>

theorem batch_conversion:
  "(case find (\<lambda>s. isl (marked_parse cv s)) spans of
      Some s \<Rightarrow> parseBlocks cv clock spans = Inl (projl (marked_parse cv s))
    | None \<Rightarrow>
        (\<exists>bs. parseBlocks cv clock spans = Inr bs \<and> map content bs = spans
           \<and> map html bs = map (\<lambda>s. sanitize cv (projr (marked_parse cv s))) spans))
   \<and> worker_onmessage cv (ParseRequest batch) =
       (case find (\<lambda>b. isl (marked_parse cv (content b))) batch of
          Some b \<Rightarrow> Some (ErrorReply (error_message (projl (marked_parse cv (content b)))))
        | None \<Rightarrow>
            Some (ParseResult
              (map (\<lambda>b. b\<lparr>html := sanitize cv (projr (marked_parse cv (content b)))\<rparr>) batch)))
   \<and> code_renderer known highlight code (Some l) =
       (if l \<noteq> [] \<and> known l \<and> \<not> isl (highlight code l)
        then js ''<pre><code class=\"hljs language-'' @ l @ js ''\">'' @ projr (highlight code l)
               @ js ''</code></pre>''
        else js ''<pre><code>'' @ escapeHtml code @ js ''</code></pre>'')
   \<and> list_all (\<lambda>d. d \<noteq> 0x3C \<and> d \<noteq> 0x3E \<and> d \<noteq> 0x22 \<and> d \<noteq> 0x27) (escapeHtml code)"
proof (intro conjI)
  show "case find (\<lambda>s. isl (marked_parse cv s)) spans of
      Some s \<Rightarrow> parseBlocks cv clock spans = Inl (projl (marked_parse cv s))
    | None \<Rightarrow>
        (\<exists>bs. parseBlocks cv clock spans = Inr bs \<and> map content bs = spans
           \<and> map html bs = map (\<lambda>s. sanitize cv (projr (marked_parse cv s))) spans)"
  proof (cases "parseBlocks cv clock spans")
    case (Inl e)
    from parseBlocks_from_first_error[of cv clock 0 spans e] Inl show ?thesis
      by (auto simp: parseBlocks_def)
  next
    case (Inr bs)
    then have "\<not> isl (parseBlocks cv clock spans)" by simp
    then have "find (\<lambda>s. isl (marked_parse cv s)) spans = None"
      by (simp add: parseBlocks_isl find_None_iff list_ex_iff)
    with Inr parseBlocks_content[OF Inr] parseBlocks_from_html[of cv clock 0 spans bs]
    show ?thesis by (simp add: parseBlocks_def)
  qed
next
  show "worker_onmessage cv (ParseRequest batch) =
       (case find (\<lambda>b. isl (marked_parse cv (content b))) batch of
          Some b \<Rightarrow> Some (ErrorReply (error_message (projl (marked_parse cv (content b)))))
        | None \<Rightarrow>
            Some (ParseResult
              (map (\<lambda>b. b\<lparr>html := sanitize cv (projr (marked_parse cv (content b)))\<rparr>) batch)))"
    by (simp add: worker_onmessage_def worker_loop_result split: option.splits)
next
  show "code_renderer known highlight code (Some l) =
       (if l \<noteq> [] \<and> known l \<and> \<not> isl (highlight code l)
        then js ''<pre><code class=\"hljs language-'' @ l @ js ''\">'' @ projr (highlight code l)
               @ js ''</code></pre>''
        else js ''<pre><code>'' @ escapeHtml code @ js ''</code></pre>'')"
    by (auto simp: code_renderer_def Let_def split: sum.splits)
next
  show "list_all (\<lambda>d. d \<noteq> 0x3C \<and> d \<noteq> 0x3E \<and> d \<noteq> 0x22 \<and> d \<noteq> 0x27) (escapeHtml code)"
    by (rule escapeHtml_safe)
qed

text \<open>
  A batch of three entries whose second entry is rejected: the batch has no result at
  all, from \<open>parseBlocks\<close> or from the worker.
\<close>

theorem batch_conversion_counterexample:
  "parseBlocks (rejecting_converter (js ''b'')) still_clock [js ''a'', js ''b'', js ''c'']
     = Inl (JsError (js ''rejected''))
   \<and> worker_onmessage (rejecting_converter (js ''b''))
       (ParseRequest [sample_block (js ''1'') (js ''a''), sample_block (js ''2'') (js ''b''),
                      sample_block (js ''3'') (js ''c'')])
     = Some (ErrorReply (js ''rejected''))"
  by (simp add: parseBlocks_def parseBlock_def rejecting_converter_def rejecting_def
      worker_onmessage_def sample_block_def error_message_def js_def)

subsection \<open>Rejections\<close>

lemma append_A_fst:
  "fst (append_A cv clock chunk p)
     = (case parseBlocks cv clock (fst (extractCompleteBlocks_A (buffer p @ chunk))) of
          Inl e \<Rightarrow> Some e | Inr bs \<Rightarrow> None)"
  by (auto simp: append_A_def append_begin_A_def parseBlocks_def split: prod.splits sum.splits)

lemma finish_fst:
  "fst (finish cv clock q)
     = (if trim (buffer q) = [] then None
        else case parseBlocks cv clock (splitIntoBlocks (buffer q)) of
               Inl e \<Rightarrow> Some e | Inr bs \<Rightarrow> None)"
  by (auto simp: finish_def Let_def parseBlocks_def split: sum.splits)

text \<open>
  C7, as the code has it: \<open>append\<close> of the first variant rejects exactly when the
  converter rejects the span sent to it, and \<open>finish\<close> (of either variant) exactly when
  the buffer is not blank and the converter rejects one of its blocks. A rejected
  \<open>append\<close> leaves the processed blocks and the renderer as they were, and a rejected
  \<open>finish\<close> the whole processor: nothing records the failure.
\<close>

theorem rejection_propagates:
  "(fst (append_A cv clock chunk p) \<noteq> None)
     = list_ex (\<lambda>s. isl (marked_parse cv s)) (fst (extractCompleteBlocks_A (buffer p @ chunk)))
   \<and> (fst (finish cv clock q) \<noteq> None)
     = (trim (buffer q) \<noteq> [] \<and> list_ex (\<lambda>s. isl (marked_parse cv s)) (splitIntoBlocks (buffer q)))
   \<and> (fst (append_A cv clock chunk p) \<noteq> None \<longrightarrow>
        processedBlocks (snd (append_A cv clock chunk p)) = processedBlocks p
        \<and> renderer (snd (append_A cv clock chunk p)) = renderer p)
   \<and> (fst (finish cv clock q) \<noteq> None \<longrightarrow> snd (finish cv clock q) = q)"
proof (intro conjI)
  show "(fst (append_A cv clock chunk p) \<noteq> None)
     = list_ex (\<lambda>s. isl (marked_parse cv s)) (fst (extractCompleteBlocks_A (buffer p @ chunk)))"
    using parseBlocks_isl[of cv clock "fst (extractCompleteBlocks_A (buffer p @ chunk))"]
    by (cases "parseBlocks cv clock (fst (extractCompleteBlocks_A (buffer p @ chunk)))")
       (simp_all add: append_A_fst)
  show "(fst (finish cv clock q) \<noteq> None)
     = (trim (buffer q) \<noteq> [] \<and> list_ex (\<lambda>s. isl (marked_parse cv s)) (splitIntoBlocks (buffer q)))"
    using parseBlocks_isl[of cv clock "splitIntoBlocks (buffer q)"]
    by (cases "parseBlocks cv clock (splitIntoBlocks (buffer q))")
       (simp_all add: finish_fst)
  show "fst (append_A cv clock chunk p) \<noteq> None \<longrightarrow>
        processedBlocks (snd (append_A cv clock chunk p)) = processedBlocks p
        \<and> renderer (snd (append_A cv clock chunk p)) = renderer p"
    by (auto simp: append_A_def append_begin_A_def split: prod.splits sum.splits)
  show "fst (finish cv clock q) \<noteq> None \<longrightarrow> snd (finish cv clock q) = q"
    by (auto simp: finish_def Let_def split: sum.splits)
qed

theorem rejection_propagates_witness:
  "fst (append_A (rejecting_converter (js ''a'')) still_clock (js ''a\<newline>\<newline>b'')
          (new_processor 10 16)) \<noteq> None
   \<and> processedBlocks (snd (append_A (rejecting_converter (js ''a'')) still_clock
          (js ''a\<newline>\<newline>b'') (new_processor 10 16))) = []
   \<and> fst (finish (rejecting_converter (js ''a'')) still_clock
          ((new_processor 10 16)\<lparr>buffer := js ''a''\<rparr>)) \<noteq> None
   \<and> snd (finish (rejecting_converter (js ''a'')) still_clock
          ((new_processor 10 16)\<lparr>buffer := js ''a''\<rparr>)) = (new_processor 10 16)\<lparr>buffer := js ''a''\<rparr>"
proof -
  define cv where "cv = rejecting_converter (js ''a'')"
  define p where "p = new_processor 10 16"
  define q where "q = p\<lparr>buffer := js ''a''\<rparr>"
  note th = rejection_propagates[of cv still_clock "js ''a\<newline>\<newline>b''" p q]
  have s: "splitIntoBlocks (js ''a'') = [js ''a'']"
    by (simp add: splitIntoBlocks_def split_init_def split_line_def push_current_def string_eval
        is_table_line_def is_hr_def)
  have bp: "buffer p = []" "processedBlocks p = []" and bq: "buffer q = js ''a''"
    by (simp_all add: p_def q_def new_processor_def)
  have r: "isl (marked_parse cv (js ''a''))"
    by (simp add: cv_def rejecting_converter_def rejecting_def)
  have 1: "list_ex (\<lambda>s. isl (marked_parse cv s))
      (fst (extractCompleteBlocks_A (buffer p @ js ''a\<newline>\<newline>b'')))"
    using r by (simp add: bp extract_A_two_paragraphs)
  have t: "trim (js ''a'') \<noteq> []" by (simp add: string_eval)
  have 2: "trim (buffer q) \<noteq> [] \<and> list_ex (\<lambda>s. isl (marked_parse cv s)) (splitIntoBlocks (buffer q))"
    using r t by (simp add: bq s)
  from th 1 2 have "fst (append_A cv still_clock (js ''a\<newline>\<newline>b'') p) \<noteq> None
    \<and> processedBlocks (snd (append_A cv still_clock (js ''a\<newline>\<newline>b'') p)) = processedBlocks p
    \<and> fst (finish cv still_clock q) \<noteq> None \<and> snd (finish cv still_clock q) = q"
    by blast
  then show ?thesis
    unfolding bp unfolding cv_def p_def q_def .
qed

text \<open>An \<open>append\<close> whose span the converter rejects: the call rejects with that error.\<close>

theorem rejection_counterexample:
  "fst (append_A (rejecting_converter (js ''a'')) still_clock (js ''a\<newline>\<newline>b'')
          (new_processor 10 16)) = Some (JsError (js ''rejected''))"
proof -
  have e: "extractCompleteBlocks_A (buffer (new_processor 10 16) @ js ''a\<newline>\<newline>b'')
      = ([js ''a''], js ''b'')"
    using extract_A_two_paragraphs by (simp add: new_processor_def)
  show ?thesis
    unfolding append_A_fst e
    by (simp add: parseBlocks_def parseBlock_def rejecting_converter_def rejecting_def)
qed

text \<open>
  The second variant's \<open>append\<close> rejects with a \<open>TypeError\<close> when the buffer has no block,
  whatever the converter does: here on the empty chunk, the first call on a new processor.
\<close>

lemma second_variant_append_blank_rejects:
  "fst (append_B cv clock [] (new_processor_B cs db))
     = Some (JsTypeError (js ''Cannot read properties of undefined (reading 'trim')''))"
  by (simp add: append_B_def append_begin_B_def new_processor_B_def extractCompleteBlocks_B_def
      splitIntoBlocks_blank isBlockComplete_def)

subsection \<open>The blocks of a text\<close>

lemma layout_ConsI:
  "t = g @ b @ rest \<Longrightarrow> visible g = [] \<Longrightarrow> layout bs rest \<Longrightarrow> layout (b # bs) t"
  by auto

lemma layout_ConsE:
  assumes "layout (b # bs) t"
  obtains g rest where "t = g @ b @ rest" "visible g = []" "layout bs rest"
  using assms by auto

declare layout.simps(2) [simp del]

lemma layout_append_blank: "layout bs t \<Longrightarrow> visible w = [] \<Longrightarrow> layout bs (t @ w)"
proof (induction bs arbitrary: t)
  case Nil
  then show ?case by simp
next
  case (Cons b bs)
  from Cons.prems(1) obtain g rest where t: "t = g @ b @ rest" "visible g = []" "layout bs rest"
    by (rule layout_ConsE)
  from Cons.IH[OF t(3) Cons.prems(2)] have "layout bs (rest @ w)" .
  with t(1,2) show ?case by (intro layout_ConsI[of _ g b "rest @ w"]) simp_all
qed

lemma layout_prepend_blank: "layout bs t \<Longrightarrow> visible w = [] \<Longrightarrow> layout bs (w @ t)"
proof (cases bs)
  case Nil
  assume "layout bs t" "visible w = []"
  with Nil show ?thesis by simp
next
  case (Cons b bs')
  assume a: "layout bs t" "visible w = []"
  with Cons obtain g rest where t: "t = g @ b @ rest" "visible g = []" "layout bs' rest"
    by (auto elim: layout_ConsE)
  have "layout (b # bs') (w @ t)"
    using a(2) t by (intro layout_ConsI[of _ "w @ g" b rest]) simp_all
  with Cons show ?thesis by simp
qed

lemma layout_snoc: "layout bs pre \<Longrightarrow> layout (bs @ [b]) (pre @ b)"
proof (induction bs arbitrary: pre)
  case Nil
  then have "layout [b] (pre @ b)"
    by (intro layout_ConsI[of _ pre b "[]"]) simp_all
  then show ?case by simp
next
  case (Cons a bs)
  from Cons.prems obtain g rest where t: "pre = g @ a @ rest" "visible g = []" "layout bs rest"
    by (rule layout_ConsE)
  from Cons.IH[OF t(3)] have "layout (bs @ [b]) (rest @ b)" .
  with t(1,2) have "layout (a # (bs @ [b])) (pre @ b)"
    by (intro layout_ConsI[of _ g a "rest @ b"]) simp_all
  then show ?case by simp
qed

lemma layout_visible: "layout bs t \<Longrightarrow> visible t = visible (concat bs)"
proof (induction bs arbitrary: t)
  case Nil
  then show ?case by simp
next
  case (Cons b bs)
  from Cons.prems obtain g rest where t: "t = g @ b @ rest" "visible g = []" "layout bs rest"
    by (rule layout_ConsE)
  from Cons.IH[OF t(3)] t(1,2) show ?case by simp
qed

lemma layout_length: "layout bs t \<Longrightarrow> length (concat bs) \<le> length t"
proof (induction bs arbitrary: t)
  case Nil
  then show ?case by simp
next
  case (Cons b bs)
  from Cons.prems obtain g rest where t: "t = g @ b @ rest" "visible g = []" "layout bs rest"
    by (rule layout_ConsE)
  from Cons.IH[OF t(3)] t(1) show ?case by simp
qed

lemma layout_filter: "layout bs t \<Longrightarrow> layout (filter (\<lambda>b. visible b \<noteq> []) bs) t"
proof (induction bs arbitrary: t)
  case Nil
  then show ?case by simp
next
  case (Cons b bs)
  from Cons.prems obtain g rest where t: "t = g @ b @ rest" "visible g = []" "layout bs rest"
    by (rule layout_ConsE)
  from Cons.IH[OF t(3)] have ih: "layout (filter (\<lambda>b. visible b \<noteq> []) bs) rest" .
  show ?case
  proof (cases "visible b = []")
    case True
    then have "visible (g @ b) = []" using t(2) by simp
    from layout_prepend_blank[OF ih this] True t(1) show ?thesis by simp
  next
    case False
    have "layout (b # filter (\<lambda>b. visible b \<noteq> []) bs) t"
      using ih t by (intro layout_ConsI[of _ g b rest]) simp_all
    with False show ?thesis by simp
  qed
qed

lemma layout_last:
  "layout (bs @ [b]) t \<Longrightarrow> \<exists>pre post. t = pre @ b @ post \<and> visible post = [] \<and> layout bs pre"
proof (induction bs arbitrary: t)
  case Nil
  then have "layout (b # []) t" by simp
  then obtain g rest where "t = g @ b @ rest" "visible g = []" "layout [] rest"
    by (rule layout_ConsE)
  then have "t = g @ b @ rest \<and> visible rest = [] \<and> layout [] g" by simp
  then show ?case by blast
next
  case (Cons a bs)
  then have "layout (a # (bs @ [b])) t" by simp
  then obtain g rest where t: "t = g @ a @ rest" "visible g = []" "layout (bs @ [b]) rest"
    by (rule layout_ConsE)
  from Cons.IH[OF t(3)] obtain pre post where
    r: "rest = pre @ b @ post" "visible post = []" "layout bs pre" by blast
  have "layout (a # bs) (g @ a @ pre)"
    using t(2) r(3) by (intro layout_ConsI[of _ g a pre]) simp_all
  with t(1) r(1,2) have "t = (g @ a @ pre) @ b @ post \<and> visible post = []
      \<and> layout (a # bs) (g @ a @ pre)" by simp
  then show ?case by blast
qed

text \<open>The push of the current block, and the three ways a line enters the state.\<close>

lemma split_inv_push:
  "split_inv bs cur ls \<Longrightarrow> split_inv (bs @ [join [10] cur]) [] ls"
proof (cases "cur = []")
  case True
  assume "split_inv bs cur ls"
  with True have "layout bs (join [10] ls)" by (simp add: split_inv_def)
  from layout_snoc[OF this, of "[]"] True show ?thesis by (simp add: split_inv_def)
next
  case False
  assume "split_inv bs cur ls"
  with False obtain pre where "join [10] ls = pre @ join [10] cur" "layout bs pre"
    by (auto simp: split_inv_def)
  with layout_snoc[of bs pre "join [10] cur"] show ?thesis by (simp add: split_inv_def)
qed

lemma join_last_line:
  "join [10] (ls @ [l]) = join [10] ls @ (if ls = [] then [] else [10]) @ l"
  by (cases "ls = []") (simp_all add: join_snoc)

lemma split_inv_add:
  "split_inv bs cur ls \<Longrightarrow> split_inv bs (cur @ [l]) (ls @ [l])"
proof (cases "cur = []")
  case True
  assume "split_inv bs cur ls"
  with True have "layout bs (join [10] ls)" by (simp add: split_inv_def)
  then have "layout bs (join [10] ls @ (if ls = [] then [] else [10]))"
    by (rule layout_append_blank) simp
  then have "join [10] (ls @ [l]) = (join [10] ls @ (if ls = [] then [] else [10])) @ join [10] [l]
      \<and> layout bs (join [10] ls @ (if ls = [] then [] else [10]))"
    by (simp add: join_last_line)
  then have "\<exists>pre. join [10] (ls @ [l]) = pre @ join [10] [l] \<and> layout bs pre" by blast
  with True show ?thesis
    unfolding split_inv_def by simp
next
  case False
  assume "split_inv bs cur ls"
  with False obtain pre where "ls \<noteq> []" "join [10] ls = pre @ join [10] cur" "layout bs pre"
    by (auto simp: split_inv_def)
  then have "join [10] (ls @ [l]) = pre @ join [10] (cur @ [l]) \<and> layout bs pre"
    using False by (simp add: join_snoc)
  then have "\<exists>pre. join [10] (ls @ [l]) = pre @ join [10] (cur @ [l]) \<and> layout bs pre" by blast
  then show ?thesis
    unfolding split_inv_def by simp
qed

lemma split_inv_emit:
  "split_inv bs [] ls \<Longrightarrow> split_inv (bs @ [l]) [] (ls @ [l])"
proof -
  assume "split_inv bs [] ls"
  then have "layout bs (join [10] ls)" by (simp add: split_inv_def)
  then have "layout bs (join [10] ls @ (if ls = [] then [] else [10]))"
    by (rule layout_append_blank) simp
  from layout_snoc[OF this, of l] show ?thesis
    by (simp add: split_inv_def join_last_line)
qed

lemma split_inv_skip:
  "split_inv bs [] ls \<Longrightarrow> visible l = [] \<Longrightarrow> split_inv bs [] (ls @ [l])"
proof -
  assume "split_inv bs [] ls" "visible l = []"
  then have "layout bs (join [10] ls)" "visible ((if ls = [] then [] else [10]) @ l) = []"
    by (simp_all add: split_inv_def)
  from layout_append_blank[OF this] show ?thesis
    by (simp add: split_inv_def join_last_line)
qed

lemma split_ok_flags [simp]:
  "split_ok (st\<lparr>inCodeBlock := x\<rparr>) ls = split_ok st ls"
  "split_ok (st\<lparr>inTable := y\<rparr>) ls = split_ok st ls"
  by (simp_all add: split_ok_def)

lemma push_current_current [simp]: "currentBlock (push_current st) = []"
  by (simp add: push_current_def)

lemma split_ok_push: "split_ok st ls \<Longrightarrow> split_ok (push_current st) ls"
  using split_inv_push[of "blocks st" "currentBlock st" ls]
  by (simp add: split_ok_def push_current_def)

lemma split_ok_add:
  "split_ok st ls \<Longrightarrow> split_ok (st\<lparr>currentBlock := currentBlock st @ [l]\<rparr>) (ls @ [l])"
  using split_inv_add[of "blocks st" "currentBlock st" ls l]
  by (simp add: split_ok_def)

lemma split_ok_emit:
  "split_ok st ls \<Longrightarrow> currentBlock st = [] \<Longrightarrow> split_ok (st\<lparr>blocks := blocks st @ [l]\<rparr>) (ls @ [l])"
  using split_inv_emit[of "blocks st" ls l]
  by (simp add: split_ok_def)

lemma split_ok_skip:
  "split_ok st ls \<Longrightarrow> currentBlock st = [] \<Longrightarrow> visible l = [] \<Longrightarrow> split_ok st (ls @ [l])"
  using split_inv_skip[of "blocks st" ls l]
  by (simp add: split_ok_def)

lemma split_ok_pushed: "split_ok st ls \<Longrightarrow>
    split_ok (if length (currentBlock st) > 0 then push_current st else st) ls
    \<and> currentBlock (if length (currentBlock st) > 0 then push_current st else st) = []"
  by (simp add: split_ok_push)

lemma split_line_ok:
  assumes ok: "split_ok st ls"
  shows "split_ok (split_line st l) (ls @ [l])"
proof (cases "startsWith (trim l) (js ''```'')")
  case True
  show ?thesis
  proof (cases "inCodeBlock st")
    case True
    from split_ok_push[OF split_ok_add[OF ok, of l]] \<open>startsWith (trim l) (js ''```'')\<close> True
    show ?thesis by (simp add: split_line_def Let_def)
  next
    case False
    let ?st1 = "if length (currentBlock st) > 0 then push_current st else st"
    from split_ok_pushed[OF ok] have "split_ok ?st1 ls" by simp
    from split_ok_add[OF this, of l] \<open>startsWith (trim l) (js ''```'')\<close> False
    show ?thesis by (simp add: split_line_def Let_def)
  qed
next
  case False
  note nofence = this
  show ?thesis
  proof (cases "inCodeBlock st")
    case True
    from split_ok_add[OF ok, of l] nofence True show ?thesis
      by (simp add: split_line_def Let_def)
  next
    case False
    note nocode = this
    show ?thesis
    proof (cases "is_table_line (trim l)")
      case True
      let ?st1 = "if \<not> inTable st \<and> length (currentBlock st) > 0 then push_current st else st"
      have "split_ok ?st1 ls" using ok by (simp add: split_ok_push)
      from split_ok_add[OF this, of l] nofence nocode True show ?thesis
        by (simp add: split_line_def Let_def)
    next
      case False
      note notable = this
      let ?st1 = "if inTable st then (push_current st)\<lparr>inTable := False\<rparr> else st"
      have ok1: "split_ok ?st1 ls" using ok by (simp add: split_ok_push)
      let ?st2 = "if length (currentBlock ?st1) > 0 then push_current ?st1 else ?st1"
      from split_ok_pushed[OF ok1] have ok2: "split_ok ?st2 ls" and c2: "currentBlock ?st2 = []"
        by simp_all
      show ?thesis
      proof (cases "trim l = []")
        case True
        then have "visible l = []" by (simp add: trim_empty_iff)
        from split_ok_skip[OF ok2 c2 this] nofence nocode notable True show ?thesis
          by (simp add: split_line_def Let_def)
      next
        case False
        note noblank = this
        show ?thesis
        proof (cases "startsWith (trim l) (js ''#'') \<or> is_hr (trim l)")
          case True
          from split_ok_emit[OF ok2 c2, of l] nofence nocode notable noblank True show ?thesis
            by (simp add: split_line_def Let_def)
        next
          case False
          from split_ok_add[OF ok1, of l] nofence nocode notable noblank False show ?thesis
            by (simp add: split_line_def Let_def)
        qed
      qed
    qed
  qed
qed

lemma foldl_split_line_ok:
  "split_ok st ls0 \<Longrightarrow> split_ok (foldl split_line st ls) (ls0 @ ls)"
proof (induction ls arbitrary: st ls0)
  case Nil
  then show ?case by simp
next
  case (Cons l ls)
  from Cons.IH[OF split_line_ok[OF Cons.prems, of l]] show ?case by simp
qed

lemma splitIntoBlocks_layout: "layout (splitIntoBlocks s) s"
proof -
  let ?st = "foldl split_line split_init (split_on 10 s)"
  have "split_ok split_init []"
    by (simp add: split_ok_def split_inv_def split_init_def)
  from foldl_split_line_ok[OF this, of "split_on 10 s"]
  have "split_ok ?st (split_on 10 s)" by simp
  from split_ok_pushed[OF this]
  have "layout (blocks (if length (currentBlock ?st) > 0 then push_current ?st else ?st)) s"
    by (simp add: split_ok_def split_inv_def split: if_splits)
  from layout_filter[OF this] show ?thesis
    by (simp add: splitIntoBlocks_def Let_def trim_empty_iff)
qed

lemma splitIntoBlocks_visible: "visible (concat (splitIntoBlocks s)) = visible s"
  using layout_visible[OF splitIntoBlocks_layout] by simp

lemma splitIntoBlocks_length: "length (concat (splitIntoBlocks s)) \<le> length s"
  by (rule layout_length[OF splitIntoBlocks_layout])

lemma splitIntoBlocks_nonblank: "b \<in> set (splitIntoBlocks s) \<Longrightarrow> visible b \<noteq> []"
  by (simp add: splitIntoBlocks_def Let_def trim_empty_iff)

lemma lastIndexOf_lower: "- 1 \<le> lastIndexOf s p"
  by (induction s) (auto simp: Let_def)

lemma lastIndexOf_found:
  "lastIndexOf s p \<noteq> - 1 \<Longrightarrow>
     \<exists>n. lastIndexOf s p = int n \<and> startsWith (drop n s) p \<and> n \<le> length s"
proof (induction s)
  case Nil
  then show ?case by (auto simp: startsWith_def split: if_splits)
next
  case (Cons c s)
  show ?case
  proof (cases "lastIndexOf s p \<noteq> - 1")
    case True
    from Cons.IH[OF this] obtain n where "lastIndexOf s p = int n" "startsWith (drop n s) p"
        "n \<le> length s" by blast
    with True show ?thesis by (intro exI[of _ "Suc n"]) (simp add: Let_def)
  next
    case False
    with Cons.prems have "startsWith (c # s) p" "lastIndexOf (c # s) p = 0"
      by (auto simp: Let_def split: if_splits)
    then show ?thesis by (intro exI[of _ 0]) simp
  qed
qed

lemma lastIndexOf_ge:
  "startsWith (drop n s) p \<Longrightarrow> n \<le> length s \<Longrightarrow> int n \<le> lastIndexOf s p"
proof (induction s arbitrary: n)
  case Nil
  then show ?case by (simp add: startsWith_def)
next
  case (Cons c s)
  show ?case
  proof (cases n)
    case 0
    with Cons.prems lastIndexOf_lower[of s p] show ?thesis by (simp add: Let_def)
  next
    case (Suc m)
    with Cons.prems have "int m \<le> lastIndexOf s p" by (intro Cons.IH) simp_all
    with Suc show ?thesis by (simp add: Let_def)
  qed
qed

lemma last_visible_split:
  "visible s \<noteq> [] \<Longrightarrow> \<exists>u c w. s = u @ [c] @ w \<and> \<not> is_space c \<and> visible w = []"
proof (induction s rule: rev_induct)
  case Nil
  then show ?case by simp
next
  case (snoc x s)
  show ?case
  proof (cases "is_space x")
    case True
    with snoc.prems have "visible s \<noteq> []" by simp
    from snoc.IH[OF this] obtain u c w where "s = u @ [c] @ w" "\<not> is_space c" "visible w = []"
      by blast
    with True have "s @ [x] = u @ [c] @ (w @ [x]) \<and> \<not> is_space c \<and> visible (w @ [x]) = []"
      by simp
    then show ?thesis by blast
  next
    case False
    then have "s @ [x] = s @ [x] @ [] \<and> \<not> is_space x \<and> visible [] = []" by simp
    then show ?thesis by blast
  qed
qed

lemma lastIndexOf_last_block:
  assumes b: "b = pre @ lb @ post" and post: "visible post = []" and lb: "visible lb \<noteq> []"
  shows "lastIndexOf b lb = int (length pre)"
proof -
  have occ: "startsWith (drop (length pre) b) lb"
    by (simp add: b startsWith_iff)
  from lastIndexOf_ge[OF occ] have ge: "int (length pre) \<le> lastIndexOf b lb"
    by (simp add: b)
  then have "lastIndexOf b lb \<noteq> - 1" by simp
  from lastIndexOf_found[OF this] obtain m where m: "lastIndexOf b lb = int m"
      "startsWith (drop m b) lb" "m \<le> length b" by blast
  from last_visible_split[OF lb] obtain u c w where
    s: "lb = u @ [c] @ w" "\<not> is_space c" "visible w = []" by blast
  have "m \<le> length pre"
  proof (rule ccontr)
    assume "\<not> m \<le> length pre"
    then have gt: "length pre < m" by simp
    from m(2) obtain t where t: "drop m b = lb @ t" by (auto simp: startsWith_iff)
    have "length (drop m b) = length lb + length t" by (simp add: t)
    then have lt: "m + length u < length b"
      using m(3) by (simp add: s(1))
    have "b ! (m + length u) = (drop m b) ! length u"
      using m(3) by simp
    also have "\<dots> = c" by (simp add: t s(1) nth_append)
    finally have c: "b ! (m + length u) = c" .
    have bb: "b = (pre @ u @ [c]) @ (w @ post)" by (simp add: b s(1))
    have "b ! (m + length u) = (w @ post) ! (m + length u - length (pre @ u @ [c]))"
      using gt by (subst bb, subst nth_append) simp
    moreover have "m + length u - length (pre @ u @ [c]) < length (w @ post)"
      using lt gt by (subst (asm) bb) simp
    ultimately have "b ! (m + length u) \<in> set (w @ post)"
      by (metis nth_mem)
    moreover have "list_all is_space (w @ post)"
      using s(3) post by (simp add: visible_empty_iff[symmetric])
    ultimately have "is_space (b ! (m + length u))"
      by (simp add: list_all_iff)
    with c s(2) show False by simp
  qed
  with ge m(1) show ?thesis by simp
qed

lemma slice_from_nat: "slice_from s (int n) = drop n s"
  by (simp add: slice_from_def)

lemma extractCompleteBlocks_B_props:
  assumes "extractCompleteBlocks_B b = Inr (spans, rest)"
  shows "visible (concat spans @ rest) = visible b"
    and "length (concat spans) + length rest \<le> length b"
    and "suffix rest b"
proof -
  let ?blocks = "splitIntoBlocks b"
  have lay: "layout ?blocks b" by (rule splitIntoBlocks_layout)
  have "visible (concat spans @ rest) = visible b
      \<and> length (concat spans) + length rest \<le> length b \<and> suffix rest b"
  proof (cases "spans = ?blocks \<and> rest = []")
    case True
    with layout_visible[OF lay] layout_length[OF lay] show ?thesis by simp
  next
    case False
    with assms have ne: "?blocks \<noteq> []"
      and sp: "spans = butlast ?blocks"
      and rest: "rest = slice_from b (lastIndexOf b (last ?blocks))"
      by (auto simp: extractCompleteBlocks_B_def Let_def pop_def
          split: sum.splits if_splits prod.splits)
    from ne have bl: "?blocks = butlast ?blocks @ [last ?blocks]" by simp
    with lay have "layout (butlast ?blocks @ [last ?blocks]) b" by simp
    from layout_last[OF this] obtain pre post where
      p: "b = pre @ last ?blocks @ post" "visible post = []" "layout (butlast ?blocks) pre"
      by blast
    have "visible (last ?blocks) \<noteq> []"
      using ne splitIntoBlocks_nonblank[of "last ?blocks" b] by simp
    from lastIndexOf_last_block[OF p(1) p(2) this]
    have "rest = drop (length pre) b" by (simp add: rest slice_from_nat)
    then have r: "rest = last ?blocks @ post" by (subst (asm) p(1)) simp
    from layout_visible[OF p(3)] layout_length[OF p(3)] show ?thesis
      unfolding sp r by (subst (3 4 5) p(1)) (simp add: suffix_def)
  qed
  then show "visible (concat spans @ rest) = visible b"
    and "length (concat spans) + length rest \<le> length b"
    and "suffix rest b" by simp_all
qed

subsection \<open>Conservation of the visible characters\<close>

lemma sent_deliver:
  "parseBlocks cv clock spans = Inr bs \<Longrightarrow> sent (deliver bs p) = sent p @ concat spans"
  using parseBlocks_content[of cv clock spans bs] by (simp add: sent_def)

lemma append_A_conserves:
  assumes "append_A cv clock chunk p = (None, p')"
  shows "visible (sent p' @ buffer p') = visible (sent p @ buffer p @ chunk)"
    and "length (sent p' @ buffer p') \<le> length (sent p @ buffer p @ chunk)"
proof -
  obtain spans rest where e: "extractCompleteBlocks_A (buffer p @ chunk) = (spans, rest)"
    by fastforce
  note pr = extractCompleteBlocks_A_props[OF e]
  have "sent p' = sent p @ concat spans \<and> buffer p' = rest"
  proof (cases "length spans > 0")
    case True
    with assms e obtain bs where "parseBlocks cv clock spans = Inr bs"
        "p' = deliver bs (p\<lparr>buffer := rest\<rparr>)"
      by (auto simp: append_A_def append_begin_A_def split: sum.splits)
    with sent_deliver[of cv clock spans bs "p\<lparr>buffer := rest\<rparr>"] show ?thesis
      by (simp add: sent_def)
  next
    case False
    with assms e show ?thesis
      by (auto simp: append_A_def append_begin_A_def sent_def)
  qed
  with pr show "visible (sent p' @ buffer p') = visible (sent p @ buffer p @ chunk)"
    and "length (sent p' @ buffer p') \<le> length (sent p @ buffer p @ chunk)"
    by simp_all
qed

lemma append_B_conserves:
  assumes "append_B cv clock chunk p = (None, p')"
  shows "visible (sent p' @ buffer p') = visible (sent p @ buffer p @ chunk)"
    and "length (sent p' @ buffer p') \<le> length (sent p @ buffer p @ chunk)"
proof -
  from assms obtain spans rest where e: "extractCompleteBlocks_B (buffer p @ chunk) = Inr (spans, rest)"
    by (auto simp: append_B_def append_begin_B_def split: sum.splits prod.splits)
  note pr = extractCompleteBlocks_B_props[OF e]
  have "sent p' = sent p @ concat spans \<and> buffer p' = rest"
  proof (cases "length spans > 0")
    case True
    with assms e obtain bs where "parseBlocks cv clock spans = Inr bs"
        "p' = deliver bs (p\<lparr>buffer := rest\<rparr>)"
      by (auto simp: append_B_def append_begin_B_def split: sum.splits)
    with sent_deliver[of cv clock spans bs "p\<lparr>buffer := rest\<rparr>"] show ?thesis
      by (simp add: sent_def)
  next
    case False
    with assms e show ?thesis
      by (auto simp: append_B_def append_begin_B_def sent_def)
  qed
  with pr show "visible (sent p' @ buffer p') = visible (sent p @ buffer p @ chunk)"
    and "length (sent p' @ buffer p') \<le> length (sent p @ buffer p @ chunk)"
    by simp_all
qed

lemma finish_conserves:
  assumes "finish cv clock p = (None, p')"
  shows "visible (sent p' @ buffer p') = visible (sent p @ buffer p)"
    and "length (sent p' @ buffer p') \<le> length (sent p @ buffer p)"
    and "visible (buffer p') = []"
proof -
  have "visible (sent p' @ buffer p') = visible (sent p @ buffer p)
     \<and> length (sent p' @ buffer p') \<le> length (sent p @ buffer p) \<and> visible (buffer p') = []"
  proof (cases "trim (buffer p) = []")
    case True
    with assms have "p' = p" by (simp add: finish_def)
    with True show ?thesis by (simp add: trim_empty_iff)
  next
    case False
    note nb = this
    show ?thesis
    proof (cases "length (splitIntoBlocks (buffer p)) > 0")
      case True
      with assms nb obtain bs where bs: "parseBlocks cv clock (splitIntoBlocks (buffer p)) = Inr bs"
          "p' = (deliver bs p)\<lparr>buffer := []\<rparr>"
        by (auto simp: finish_def Let_def split: sum.splits)
      from sent_deliver[OF bs(1), of p] bs(2)
      have "sent p' = sent p @ concat (splitIntoBlocks (buffer p))" "buffer p' = []"
        by (simp_all add: sent_def)
      with splitIntoBlocks_visible[of "buffer p"] splitIntoBlocks_length[of "buffer p"]
      show ?thesis by simp
    next
      case False
      with assms nb have "p' = p\<lparr>buffer := []\<rparr>" by (simp add: finish_def Let_def)
      moreover from False splitIntoBlocks_visible[of "buffer p"] have "visible (buffer p) = []"
        by simp
      ultimately show ?thesis by (simp add: sent_def)
    qed
  qed
  then show "visible (sent p' @ buffer p') = visible (sent p @ buffer p)"
    and "length (sent p' @ buffer p') \<le> length (sent p @ buffer p)"
    and "visible (buffer p') = []" by blast+
qed

lemma call_A_conserves:
  assumes "call_A cv clock c p = (None, p')"
  shows "visible (sent p' @ buffer p') = visible (sent p @ buffer p @ appended [c])"
    and "length (sent p' @ buffer p') \<le> length (sent p @ buffer p @ appended [c])"
  using assms append_A_conserves[of cv clock _ p p'] finish_conserves(1,2)[of cv clock p p']
  by (cases c; simp add: call_A_def)+

lemma call_B_conserves:
  assumes "call_B cv clock c p = (None, p')"
  shows "visible (sent p' @ buffer p') = visible (sent p @ buffer p @ appended [c])"
    and "length (sent p' @ buffer p') \<le> length (sent p @ buffer p @ appended [c])"
  using assms append_B_conserves[of cv clock _ p p'] finish_conserves(1,2)[of cv clock p p']
  by (cases c; simp add: call_B_def)+

lemma appended_Cons: "appended (c # cs) = appended [c] @ appended cs"
  by (cases c) simp_all



lemma calls_A_conserves:
  "calls_A cv clock k cs p = (None, p') \<Longrightarrow>
     visible (sent p' @ buffer p') = visible (sent p @ buffer p @ appended cs)
     \<and> length (sent p' @ buffer p') \<le> length (sent p @ buffer p @ appended cs)"
proof (induction cs arbitrary: k p)
  case Nil
  then show ?case by simp
next
  case (Cons c cs)
  from Cons.prems obtain p1 where c1: "call_A cv (clock k) c p = (None, p1)"
      and rest: "calls_A cv clock (k + 1) cs p1 = (None, p')"
    by (auto split: prod.splits option.splits)
  from Cons.IH[OF rest] call_A_conserves[OF c1] show ?case
    by (subst (1 2) appended_Cons) (simp del: appended.simps)
qed

lemma calls_B_conserves:
  "calls_B cv clock k cs p = (None, p') \<Longrightarrow>
     visible (sent p' @ buffer p') = visible (sent p @ buffer p @ appended cs)
     \<and> length (sent p' @ buffer p') \<le> length (sent p @ buffer p @ appended cs)"
proof (induction cs arbitrary: k p)
  case Nil
  then show ?case by simp
next
  case (Cons c cs)
  from Cons.prems obtain p1 where c1: "call_B cv (clock k) c p = (None, p1)"
      and rest: "calls_B cv clock (k + 1) cs p1 = (None, p')"
    by (auto split: prod.splits option.splits)
  from Cons.IH[OF rest] call_B_conserves[OF c1] show ?case
    by (subst (1 2) appended_Cons) (simp del: appended.simps)
qed



lemma in_step_refl: "processedBlocks p' = processedBlocks p \<Longrightarrow> renderer p' = renderer p \<Longrightarrow> in_step p p'"
  unfolding in_step_def by (intro exI[of _ "[]"]) simp

lemma in_step_trans: "in_step p p1 \<Longrightarrow> in_step p1 p' \<Longrightarrow> in_step p p'"
  unfolding in_step_def by auto

lemma in_step_deliver:
  "processedBlocks p1 = processedBlocks p \<Longrightarrow> renderer p1 = renderer p
    \<Longrightarrow> processedBlocks p' = processedBlocks (deliver bs p1)
    \<Longrightarrow> renderer p' = renderer (deliver bs p1) \<Longrightarrow> in_step p p'"
  unfolding in_step_def by (intro exI[of _ bs]) simp

lemma call_A_in_step: "call_A cv clock c p = (None, p') \<Longrightarrow> in_step p p'"
proof (cases c)
  case (Append chunk)
  assume "call_A cv clock c p = (None, p')"
  with Append have a: "append_A cv clock chunk p = (None, p')" by (simp add: call_A_def)
  obtain spans p1 where b: "append_begin_A chunk p = (spans, p1)" by fastforce
  then have p1: "processedBlocks p1 = processedBlocks p" "renderer p1 = renderer p"
    using append_begin_A_simps(3,4)[of chunk p] by simp_all
  show ?thesis
  proof (cases "length spans > 0")
    case True
    with a b obtain bs where "p' = deliver bs p1"
      by (auto simp: append_A_def split: sum.splits)
    with in_step_deliver[OF p1, of p' bs] show ?thesis by simp
  next
    case False
    with a b have "p' = p1" by (simp add: append_A_def)
    with in_step_refl[OF p1] show ?thesis by simp
  qed
next
  case Finish
  assume "call_A cv clock c p = (None, p')"
  with Finish have "finish cv clock p = (None, p')" by (simp add: call_A_def)
  then show ?thesis
    by (auto simp: finish_def Let_def split: if_splits sum.splits
        intro: in_step_refl in_step_deliver[of p p])
qed

lemma call_B_in_step: "call_B cv clock c p = (None, p') \<Longrightarrow> in_step p p'"
proof (cases c)
  case (Append chunk)
  assume "call_B cv clock c p = (None, p')"
  with Append have a: "append_B cv clock chunk p = (None, p')" by (simp add: call_B_def)
  then obtain spans p1 where b: "append_begin_B chunk p = Inr (spans, p1)"
    by (auto simp: append_B_def split: sum.splits prod.splits)
  then have p1: "processedBlocks p1 = processedBlocks p" "renderer p1 = renderer p"
    by (auto simp: append_begin_B_def split: sum.splits prod.splits)
  show ?thesis
  proof (cases "length spans > 0")
    case True
    with a b obtain bs where "p' = deliver bs p1"
      by (auto simp: append_B_def split: sum.splits)
    with in_step_deliver[OF p1, of p' bs] show ?thesis by simp
  next
    case False
    with a b have "p' = p1" by (simp add: append_B_def)
    with in_step_refl[OF p1] show ?thesis by simp
  qed
next
  case Finish
  assume "call_B cv clock c p = (None, p')"
  with Finish have "finish cv clock p = (None, p')" by (simp add: call_B_def)
  then show ?thesis
    by (auto simp: finish_def Let_def split: if_splits sum.splits
        intro: in_step_refl in_step_deliver[of p p])
qed

lemma calls_A_in_step: "calls_A cv clock k cs p = (None, p') \<Longrightarrow> in_step p p'"
proof (induction cs arbitrary: k p)
  case Nil
  then show ?case by (simp add: in_step_refl)
next
  case (Cons c cs)
  from Cons.prems obtain p1 where c1: "call_A cv (clock k) c p = (None, p1)"
      and rest: "calls_A cv clock (k + 1) cs p1 = (None, p')"
    by (auto split: prod.splits option.splits)
  from in_step_trans[OF call_A_in_step[OF c1] Cons.IH[OF rest]] show ?case .
qed

lemma calls_B_in_step: "calls_B cv clock k cs p = (None, p') \<Longrightarrow> in_step p p'"
proof (induction cs arbitrary: k p)
  case Nil
  then show ?case by (simp add: in_step_refl)
next
  case (Cons c cs)
  from Cons.prems obtain p1 where c1: "call_B cv (clock k) c p = (None, p1)"
      and rest: "calls_B cv clock (k + 1) cs p1 = (None, p')"
    by (auto split: prod.splits option.splits)
  from in_step_trans[OF call_B_in_step[OF c1] Cons.IH[OF rest]] show ?case .
qed

lemma new_processor_fields [simp]:
  "buffer (new_processor cs db) = []" "processedBlocks (new_processor cs db) = []"
  "renderer (new_processor cs db) = new_renderer cs db"
  "buffer (new_processor_B cs db) = []" "processedBlocks (new_processor_B cs db) = []"
  "renderer (new_processor_B cs db) = new_renderer cs db"
  "pendingBlocks (new_renderer cs db) = []"
  by (simp_all add: new_processor_def new_processor_B_def new_renderer_def)

lemma sent_new [simp]: "sent (new_processor cs db) = []" "sent (new_processor_B cs db) = []"
  by (simp_all add: sent_def)

lemma plain_parse:
  "\<exists>bs. parseBlocks plain_converter clock spans = Inr bs \<and> map content bs = spans"
proof -
  have "\<not> isl (parseBlocks plain_converter clock spans)"
    by (simp add: parseBlocks_isl plain_converter_def list_ex_iff)
  then obtain bs where "parseBlocks plain_converter clock spans = Inr bs"
    by (cases "parseBlocks plain_converter clock spans") simp_all
  with parseBlocks_content[OF this] show ?thesis by simp
qed

lemma append_A_plain:
  "fst (append_A plain_converter clock chunk p) = None"
  "map content (processedBlocks (snd (append_A plain_converter clock chunk p)))
     = map content (processedBlocks p) @ fst (extractCompleteBlocks_A (buffer p @ chunk))"
  "buffer (snd (append_A plain_converter clock chunk p))
     = snd (extractCompleteBlocks_A (buffer p @ chunk))"
proof -
  obtain spans rest where e: "extractCompleteBlocks_A (buffer p @ chunk) = (spans, rest)"
    by fastforce
  obtain bs where bs: "parseBlocks plain_converter clock spans = Inr bs" "map content bs = spans"
    using plain_parse by blast
  show "fst (append_A plain_converter clock chunk p) = None"
    using e bs by (simp add: append_A_def append_begin_A_def)
  show "map content (processedBlocks (snd (append_A plain_converter clock chunk p)))
     = map content (processedBlocks p) @ fst (extractCompleteBlocks_A (buffer p @ chunk))"
    using e bs by (simp add: append_A_def append_begin_A_def)
  show "buffer (snd (append_A plain_converter clock chunk p))
     = snd (extractCompleteBlocks_A (buffer p @ chunk))"
    using e bs by (simp add: append_A_def append_begin_A_def)
qed





text \<open>
  After the append of the two paragraphs, one character was handed on and one is
  buffered, of four appended.
\<close>

theorem characters_not_conserved_counterexample:
  "fst (append_A plain_converter still_clock (js ''a\<newline>\<newline>b'') (new_processor 10 16)) = None
   \<and> map content (processedBlocks (snd (append_A plain_converter still_clock
         (js ''a\<newline>\<newline>b'') (new_processor 10 16)))) = [js ''a'']
   \<and> buffer (snd (append_A plain_converter still_clock (js ''a\<newline>\<newline>b'')
         (new_processor 10 16))) = js ''b''
   \<and> length (concat [js ''a'']) + length (js ''b'') \<noteq> length (js ''a\<newline>\<newline>b'')"
  unfolding append_A_plain by (simp add: extract_A_two_paragraphs) (simp add: js_def)

subsection \<open>The spans of a stream\<close>

lemma split_sentences_from_single: "split_sentences_from seg s = [z] \<Longrightarrow> z = seg @ s"
proof (induction seg s rule: split_sentences_from.induct)
  case (1 seg)
  then show ?case by simp
next
  case (2 seg c cs)
  then show ?case by (auto split: if_splits)
qed

lemma visible_takeWhile_space [simp]: "visible (takeWhile is_space s) = []"
  by (induction s) simp_all

lemma split_sentences_from_three:
  "split_sentences_from seg s = [x, y, z]
    \<Longrightarrow> \<exists>ws. seg @ s = x @ y @ ws @ z \<and> visible ws = []"
proof (induction seg s rule: split_sentences_from.induct)
  case (1 seg)
  then show ?case by simp
next
  case (2 seg c cs)
  show ?case
  proof (cases "is_terminator c \<and> (case cs of [] \<Rightarrow> False | d # _ \<Rightarrow> is_space d)")
    case True
    with "2.prems" have x: "x = seg" and y: "y = [c]"
      and r: "split_sentences_from [] (dropWhile is_space cs) = [z]" by simp_all
    from split_sentences_from_single[OF r] have z: "z = dropWhile is_space cs" by simp
    have "seg @ c # cs = x @ y @ takeWhile is_space cs @ z"
      by (simp add: x y z)
    then show ?thesis by (intro exI[of _ "takeWhile is_space cs"]) simp
  next
    case False
    with "2.prems" have "split_sentences_from (seg @ [c]) cs = [x, y, z]" by auto
    with False "2.IH"(2) show ?thesis by auto
  qed
qed

lemma layout_append: "layout as s \<Longrightarrow> layout bs t \<Longrightarrow> layout (as @ bs) (s @ t)"
proof (induction as arbitrary: s)
  case Nil
  then show ?case by (simp add: layout_prepend_blank)
next
  case (Cons a as)
  from Cons.prems(1) obtain g rest where s: "s = g @ a @ rest" "visible g = []" "layout as rest"
    by (rule layout_ConsE)
  from Cons.IH[OF s(3) Cons.prems(2)] have "layout (as @ bs) (rest @ t)" .
  with s(1,2) have "layout (a # (as @ bs)) (s @ t)"
    by (intro layout_ConsI[of _ g a "rest @ t"]) simp_all
  then show ?case by simp
qed

lemma length_three: "length xs = 3 \<Longrightarrow> \<exists>x y z. xs = [x, y, z]"
  by (auto simp: numeral_3_eq_3 length_Suc_conv)

lemma layout_single: "visible w = [] \<Longrightarrow> layout [b] (b @ w)"
  by (intro layout_ConsI[of _ "[]" b w]) simp_all

lemma extractCompleteBlocks_A_layout:
  assumes e: "extractCompleteBlocks_A b = (spans, rest)" and nj: "\<not> joins_sentences b"
  shows "\<exists>pre. b = pre @ rest \<and> layout spans pre"
proof (cases "indexOf b [10, 10] \<noteq> - 1")
  case True
  then obtain n t where n: "indexOf b [10, 10] = int n" "drop n b = [10, 10] @ t" "n \<le> length b"
    using indexOf_found by blast
  have b: "b = take n b @ [10, 10] @ t"
    using n(2) by (metis append_take_drop_id)
  have t: "drop (Suc (Suc n)) b = t"
    using n(2) by (metis Cons_eq_appendI append_Nil drop_Suc drop_drop list.sel(3) tl_drop
        add_2_eq_Suc' drop0 plus_1_eq_Suc)
  from e True n have rest: "rest = t"
    and spans: "spans = (if trim (take n b) \<noteq> [] then [take n b] else [])"
    by (auto simp: extractCompleteBlocks_A_def Let_def substring_prefix substring_from_drop
        nat_add_distrib t split: if_splits)
  have "layout spans (take n b @ [10, 10])"
  proof (cases "trim (take n b) = []")
    case True
    then show ?thesis using spans by (simp add: trim_empty_iff)
  next
    case False
    then show ?thesis using spans layout_single[of "[10, 10]" "take n b"] by simp
  qed
  moreover have "b = (take n b @ [10, 10]) @ rest" using b rest by simp
  ultimately show ?thesis by blast
next
  case False
  note noidx = this
  show ?thesis
  proof (cases "length (split_sentences b) > 2")
    case True
    let ?ss = "split_sentences b"
    from nj noidx have "\<not> length ?ss > 3" by (simp add: joins_sentences_def)
    with True have "length ?ss = 3" by simp
    from length_three[OF this] obtain x y z where ss: "?ss = [x, y, z]" by blast
    from split_sentences_from_three[of "[]" b x y z] ss obtain ws where
      ws: "b = x @ y @ ws @ z" "visible ws = []" by (auto simp: split_sentences_def)
    obtain c where c: "y = [c]"
      using split_sentences_from_punct[of "[]" b] True ss by (auto simp: split_sentences_def)
    from e noidx True ss c have sp: "spans = [x @ y]" and rest: "rest = z"
      by (auto simp: extractCompleteBlocks_A_def Let_def pop_def or_empty_def)
    have "layout spans ((x @ y) @ ws)"
      unfolding sp using ws(2) by (rule layout_single)
    moreover have "b = ((x @ y) @ ws) @ rest" using ws(1) rest by simp
    ultimately show ?thesis by blast
  next
    case False
    with e noidx have "marker_branch b = (spans, rest)"
      by (auto simp: extractCompleteBlocks_A_def Let_def)
    from marker_branch_split[OF this] show ?thesis
    proof
      assume "spans = [] \<and> rest = b"
      then show ?thesis by (intro exI[of _ "[]"]) simp
    next
      assume "\<exists>blk. spans = [blk] \<and> b = blk @ [10] @ rest"
      then obtain blk where "spans = [blk]" "b = (blk @ [10]) @ rest" by auto
      moreover have "layout [blk] (blk @ [10])" by (rule layout_single) simp
      ultimately show ?thesis by blast
    qed
  qed
qed

lemma extractCompleteBlocks_B_layout:
  assumes "extractCompleteBlocks_B b = Inr (spans, rest)"
  shows "\<exists>pre. b = pre @ rest \<and> layout spans pre"
proof -
  let ?blocks = "splitIntoBlocks b"
  have lay: "layout ?blocks b" by (rule splitIntoBlocks_layout)
  show ?thesis
  proof (cases "spans = ?blocks \<and> rest = []")
    case True
    with lay show ?thesis by (intro exI[of _ b]) simp
  next
    case False
    with assms have ne: "?blocks \<noteq> []"
      and sp: "spans = butlast ?blocks"
      and rest: "rest = slice_from b (lastIndexOf b (last ?blocks))"
      by (auto simp: extractCompleteBlocks_B_def Let_def pop_def
          split: sum.splits if_splits prod.splits)
    from ne have bl: "?blocks = butlast ?blocks @ [last ?blocks]" by simp
    with lay have "layout (butlast ?blocks @ [last ?blocks]) b" by simp
    from layout_last[OF this] obtain pre post where
      p: "b = pre @ last ?blocks @ post" "visible post = []" "layout (butlast ?blocks) pre"
      by blast
    have "visible (last ?blocks) \<noteq> []"
      using ne splitIntoBlocks_nonblank[of "last ?blocks" b] by simp
    from lastIndexOf_last_block[OF p(1) p(2) this]
    have "rest = drop (length pre) b" by (simp add: rest slice_from_nat)
    then have r: "rest = last ?blocks @ post" by (subst (asm) p(1)) simp
    with p(1,3) sp show ?thesis by (intro exI[of _ pre]) simp
  qed
qed

lemma append_A_layout:
  assumes a: "append_A cv clock chunk p = (None, p')" and nj: "\<not> joins_sentences (buffer p @ chunk)"
  shows "\<exists>new mid. map content (processedBlocks p') = map content (processedBlocks p) @ new
      \<and> buffer p @ chunk = mid @ buffer p' \<and> layout new mid
      \<and> buffer p' = snd (extractCompleteBlocks_A (buffer p @ chunk))"
proof -
  obtain spans rest where e: "extractCompleteBlocks_A (buffer p @ chunk) = (spans, rest)"
    by fastforce
  from extractCompleteBlocks_A_layout[OF e nj] obtain pre where
    pre: "buffer p @ chunk = pre @ rest" "layout spans pre" by blast
  have "map content (processedBlocks p') = map content (processedBlocks p) @ spans \<and> buffer p' = rest"
  proof (cases "length spans > 0")
    case True
    with a e obtain bs where "parseBlocks cv clock spans = Inr bs"
        "p' = deliver bs (p\<lparr>buffer := rest\<rparr>)"
      by (auto simp: append_A_def append_begin_A_def split: sum.splits)
    with parseBlocks_content[of cv clock spans bs] show ?thesis by simp
  next
    case False
    with a e show ?thesis
      by (auto simp: append_A_def append_begin_A_def)
  qed
  then have "map content (processedBlocks p') = map content (processedBlocks p) @ spans"
    and bp: "buffer p' = rest" by simp_all
  moreover have "buffer p @ chunk = pre @ buffer p'" unfolding bp by (rule pre(1))
  moreover have "buffer p' = snd (extractCompleteBlocks_A (buffer p @ chunk))"
    unfolding bp e by simp
  ultimately show ?thesis using pre(2) by blast
qed

lemma append_B_layout:
  assumes a: "append_B cv clock chunk p = (None, p')"
  shows "\<exists>new mid. map content (processedBlocks p') = map content (processedBlocks p) @ new
      \<and> buffer p @ chunk = mid @ buffer p' \<and> layout new mid"
proof -
  from a obtain spans rest where e: "extractCompleteBlocks_B (buffer p @ chunk) = Inr (spans, rest)"
    by (auto simp: append_B_def append_begin_B_def split: sum.splits prod.splits)
  from extractCompleteBlocks_B_layout[OF e] obtain pre where
    pre: "buffer p @ chunk = pre @ rest" "layout spans pre" by blast
  have "map content (processedBlocks p') = map content (processedBlocks p) @ spans \<and> buffer p' = rest"
  proof (cases "length spans > 0")
    case True
    with a e obtain bs where "parseBlocks cv clock spans = Inr bs"
        "p' = deliver bs (p\<lparr>buffer := rest\<rparr>)"
      by (auto simp: append_B_def append_begin_B_def split: sum.splits)
    with parseBlocks_content[of cv clock spans bs] show ?thesis by simp
  next
    case False
    with a e show ?thesis
      by (auto simp: append_B_def append_begin_B_def)
  qed
  then have "map content (processedBlocks p') = map content (processedBlocks p) @ spans"
    and bp: "buffer p' = rest" by simp_all
  moreover have "buffer p @ chunk = pre @ buffer p'" unfolding bp by (rule pre(1))
  ultimately show ?thesis using pre(2) by blast
qed

lemma finish_layout:
  assumes f: "finish cv clock p = (None, p')"
  shows "\<exists>new mid. map content (processedBlocks p') = map content (processedBlocks p) @ new
      \<and> buffer p = mid @ buffer p' \<and> layout new mid
      \<and> buffer p' = (if trim (buffer p) = [] then buffer p else [])"
proof (cases "trim (buffer p) = []")
  case True
  with f have "p' = p" by (simp add: finish_def)
  with True show ?thesis by (intro exI[of _ "[]"]) simp
next
  case False
  note nb = this
  have lay: "layout (splitIntoBlocks (buffer p)) (buffer p)" by (rule splitIntoBlocks_layout)
  show ?thesis
  proof (cases "length (splitIntoBlocks (buffer p)) > 0")
    case True
    with f nb obtain bs where bs: "parseBlocks cv clock (splitIntoBlocks (buffer p)) = Inr bs"
        "p' = (deliver bs p)\<lparr>buffer := []\<rparr>"
      by (auto simp: finish_def Let_def split: sum.splits)
    from parseBlocks_content[OF bs(1)] bs(2) lay nb show ?thesis
      by (intro exI[of _ "splitIntoBlocks (buffer p)"] exI[of _ "buffer p"]) simp
  next
    case False
    with f nb have "p' = p\<lparr>buffer := []\<rparr>" by (simp add: finish_def Let_def)
    with False lay nb show ?thesis
      by (intro exI[of _ "[]"] exI[of _ "buffer p"]) simp
  qed
qed

lemma calls_A_layout:
  "calls_A cv clock k cs p = (None, p')
    \<Longrightarrow> list_all (\<lambda>b. \<not> joins_sentences b) (buffers_A (buffer p) cs)
    \<Longrightarrow> \<exists>new mid. map content (processedBlocks p') = map content (processedBlocks p) @ new
          \<and> buffer p @ appended cs = mid @ buffer p' \<and> layout new mid"
proof (induction cs arbitrary: k p)
  case Nil
  then show ?case by (intro exI[of _ "[]"]) simp
next
  case (Cons c cs)
  from Cons.prems(1) obtain p1 where c1: "call_A cv (clock k) c p = (None, p1)"
      and rest: "calls_A cv clock (k + 1) cs p1 = (None, p')"
    by (auto split: prod.splits option.splits)
  have "\<exists>new mid. map content (processedBlocks p1) = map content (processedBlocks p) @ new
      \<and> buffer p @ appended [c] = mid @ buffer p1 \<and> layout new mid
      \<and> list_all (\<lambda>b. \<not> joins_sentences b) (buffers_A (buffer p1) cs)"
  proof (cases c)
    case (Append chunk)
    with c1 have a: "append_A cv (clock k) chunk p = (None, p1)" by (simp add: call_A_def)
    from Cons.prems(2) Append have nj: "\<not> joins_sentences (buffer p @ chunk)"
      and r: "list_all (\<lambda>b. \<not> joins_sentences b)
          (buffers_A (snd (extractCompleteBlocks_A (buffer p @ chunk))) cs)" by simp_all
    from append_A_layout[OF a nj] obtain new mid where
      n: "map content (processedBlocks p1) = map content (processedBlocks p) @ new"
        "buffer p @ chunk = mid @ buffer p1" "layout new mid"
        "buffer p1 = snd (extractCompleteBlocks_A (buffer p @ chunk))" by blast
    have 1: "list_all (\<lambda>b. \<not> joins_sentences b) (buffers_A (buffer p1) cs)"
      unfolding n(4) by (rule r)
    have 2: "buffer p @ appended [c] = mid @ buffer p1"
      unfolding Append appended.simps append_Nil2 by (rule n(2))
    from n(1) 2 n(3) 1 show ?thesis by blast
  next
    case Finish
    with c1 have f: "finish cv (clock k) p = (None, p1)" by (simp add: call_A_def)
    from Cons.prems(2) Finish have r: "list_all (\<lambda>b. \<not> joins_sentences b)
        (buffers_A (if trim (buffer p) = [] then buffer p else []) cs)" by simp
    from finish_layout[OF f] obtain new mid where
      n: "map content (processedBlocks p1) = map content (processedBlocks p) @ new"
        "buffer p = mid @ buffer p1" "layout new mid"
        "buffer p1 = (if trim (buffer p) = [] then buffer p else [])" by blast
    have 1: "list_all (\<lambda>b. \<not> joins_sentences b) (buffers_A (buffer p1) cs)"
      unfolding n(4) by (rule r)
    have 2: "buffer p @ appended [c] = mid @ buffer p1"
      unfolding Finish appended.simps append_Nil2 by (rule n(2))
    from n(1) 2 n(3) 1 show ?thesis by blast
  qed
  then obtain new1 mid1 where 1: "map content (processedBlocks p1) = map content (processedBlocks p) @ new1"
      "buffer p @ appended [c] = mid1 @ buffer p1" "layout new1 mid1"
      "list_all (\<lambda>b. \<not> joins_sentences b) (buffers_A (buffer p1) cs)" by blast
  from Cons.IH[OF rest 1(4)] obtain new2 mid2 where
    2: "map content (processedBlocks p') = map content (processedBlocks p1) @ new2"
      "buffer p1 @ appended cs = mid2 @ buffer p'" "layout new2 mid2" by blast
  have "buffer p @ appended (c # cs) = (buffer p @ appended [c]) @ appended cs"
    by (subst appended_Cons) simp
  also have "\<dots> = mid1 @ (buffer p1 @ appended cs)" using 1(2) by simp
  also have "\<dots> = (mid1 @ mid2) @ buffer p'" using 2(2) by simp
  finally have "buffer p @ appended (c # cs) = (mid1 @ mid2) @ buffer p'" .
  moreover have "map content (processedBlocks p') = map content (processedBlocks p) @ (new1 @ new2)"
    using 1(1) 2(1) by simp
  moreover have "layout (new1 @ new2) (mid1 @ mid2)" using 1(3) 2(3) by (rule layout_append)
  ultimately show ?case by blast
qed

lemma calls_B_layout:
  "calls_B cv clock k cs p = (None, p')
    \<Longrightarrow> \<exists>new mid. map content (processedBlocks p') = map content (processedBlocks p) @ new
          \<and> buffer p @ appended cs = mid @ buffer p' \<and> layout new mid"
proof (induction cs arbitrary: k p)
  case Nil
  then show ?case by (intro exI[of _ "[]"]) simp
next
  case (Cons c cs)
  from Cons.prems(1) obtain p1 where c1: "call_B cv (clock k) c p = (None, p1)"
      and rest: "calls_B cv clock (k + 1) cs p1 = (None, p')"
    by (auto split: prod.splits option.splits)
  have "\<exists>new mid. map content (processedBlocks p1) = map content (processedBlocks p) @ new
      \<and> buffer p @ appended [c] = mid @ buffer p1 \<and> layout new mid"
  proof (cases c)
    case (Append chunk)
    with c1 have a: "append_B cv (clock k) chunk p = (None, p1)" by (simp add: call_B_def)
    from append_B_layout[OF a] obtain new mid where
      n: "map content (processedBlocks p1) = map content (processedBlocks p) @ new"
        "buffer p @ chunk = mid @ buffer p1" "layout new mid" by blast
    have 2: "buffer p @ appended [c] = mid @ buffer p1"
      unfolding Append appended.simps append_Nil2 by (rule n(2))
    from n(1) 2 n(3) show ?thesis by blast
  next
    case Finish
    with c1 have f: "finish cv (clock k) p = (None, p1)" by (simp add: call_B_def)
    from finish_layout[OF f] obtain new mid where
      n: "map content (processedBlocks p1) = map content (processedBlocks p) @ new"
        "buffer p = mid @ buffer p1" "layout new mid" by blast
    have 2: "buffer p @ appended [c] = mid @ buffer p1"
      unfolding Finish appended.simps append_Nil2 by (rule n(2))
    from n(1) 2 n(3) show ?thesis by blast
  qed
  then obtain new1 mid1 where 1: "map content (processedBlocks p1) = map content (processedBlocks p) @ new1"
      "buffer p @ appended [c] = mid1 @ buffer p1" "layout new1 mid1" by blast
  from Cons.IH[OF rest] obtain new2 mid2 where
    2: "map content (processedBlocks p') = map content (processedBlocks p1) @ new2"
      "buffer p1 @ appended cs = mid2 @ buffer p'" "layout new2 mid2" by blast
  have "buffer p @ appended (c # cs) = (buffer p @ appended [c]) @ appended cs"
    by (subst appended_Cons) simp
  also have "\<dots> = mid1 @ (buffer p1 @ appended cs)" using 1(2) by simp
  also have "\<dots> = (mid1 @ mid2) @ buffer p'" using 2(2) by simp
  finally have "buffer p @ appended (c # cs) = (mid1 @ mid2) @ buffer p'" .
  moreover have "map content (processedBlocks p') = map content (processedBlocks p) @ (new1 @ new2)"
    using 1(1) 2(1) by simp
  moreover have "layout (new1 @ new2) (mid1 @ mid2)" using 1(3) 2(3) by (rule layout_append)
  ultimately show ?case by blast
qed

lemma drain_Nil [simp]: "drain [] r = r"
  by (simp add: drain_def)

lemma drain_Cons [simp]: "drain (t # ts) r = drain ts (drain_step t r)"
  by (simp add: drain_def)







lemma awaiting_fields [simp]:
  "pendingBlocks (awaiting cs db bs) = bs" "container (awaiting cs db bs) = []"
  "nextElement (awaiting cs db bs) = 0"
  by (simp_all add: awaiting_def new_renderer_def)












lemma finish_parts:
  "finish cv clock p =
     (case finish_begin p of
        None \<Rightarrow> (None, p)
      | Some remainingBlocks \<Rightarrow>
          if length remainingBlocks > 0 then
            (case parseBlocks cv clock remainingBlocks of
               Inl e \<Rightarrow> (Some e, p)
             | Inr parsedBlocks \<Rightarrow> (None, finish_end parsedBlocks p))
          else (None, p\<lparr>buffer := []\<rparr>))"
  by (simp add: finish_def finish_begin_def finish_end_def Let_def split: sum.splits)

lemma extract_A_ab: "extractCompleteBlocks_A (js ''ab'') = ([], js ''ab'')"
  by (simp add: extractCompleteBlocks_A_def marker_branch_def marker_loop.simps string_eval)

text \<open>
  An \<open>append\<close> made while a \<open>finish\<close> is in flight: \<open>finish\<close> has sent the block \<open>a\<close>,
  the \<open>append\<close> of \<open>b\<close> finds no span and leaves \<open>ab\<close> in the buffer, and the
  continuation of \<open>finish\<close> empties the buffer: \<open>b\<close> is in no block and not buffered.
\<close>

lemma finish_in_flight_wipes_append:
  "finish_begin ((new_processor 10 16)\<lparr>buffer := js ''a''\<rparr>) = Some [js ''a'']
   \<and> append_begin_A (js ''b'') ((new_processor 10 16)\<lparr>buffer := js ''a''\<rparr>)
       = ([], (new_processor 10 16)\<lparr>buffer := js ''ab''\<rparr>)
   \<and> buffer (finish_end parsed ((new_processor 10 16)\<lparr>buffer := js ''ab''\<rparr>)) = []
   \<and> processedBlocks (finish_end parsed ((new_processor 10 16)\<lparr>buffer := js ''ab''\<rparr>)) = parsed"
proof -
  have s: "splitIntoBlocks (js ''a'') = [js ''a'']"
    by (simp add: splitIntoBlocks_def split_init_def split_line_def push_current_def string_eval
        is_table_line_def is_hr_def)
  have t: "trim (js ''a'') \<noteq> []" by (simp add: string_eval)
  have j: "js ''a'' @ js ''b'' = js ''ab''" by (simp add: js_def)
  show ?thesis
    using s t by (simp add: finish_begin_def finish_end_def append_begin_A_def j extract_A_ab)
qed

text \<open>
  Two sentence ends in the buffer of the first variant: the span joins the two
  sentences without the white space between them.
\<close>

lemma first_variant_joins_sentences:
  "extractCompleteBlocks_A (js ''Hi. Yo! Zed'') = ([js ''Hi.Yo!''], js ''Zed'')"
  by (simp add: extractCompleteBlocks_A_def string_eval)

lemma extract_A_one_sentence:
  "extractCompleteBlocks_A (js ''Hi. Yo'') = ([js ''Hi.''], js ''Yo'')"
  by (simp add: extractCompleteBlocks_A_def string_eval)

lemma one_sentence_not_joined: "\<not> joins_sentences (js ''Hi. Yo'')"
  by (simp add: joins_sentences_def string_eval)


lemma extract_B_a_newline: "extractCompleteBlocks_B (js ''a\<newline>'') = Inr ([js ''a''], [])"
  by (simp add: extractCompleteBlocks_B_def isBlockComplete_def splitIntoBlocks_def split_init_def
      split_line_def push_current_def string_eval is_table_line_def is_hr_def)

lemma extract_B_newline_b: "extractCompleteBlocks_B (js ''\<newline>b'') = Inr ([js ''b''], [])"
  by (simp add: extractCompleteBlocks_B_def isBlockComplete_def splitIntoBlocks_def split_init_def
      split_line_def push_current_def string_eval is_table_line_def is_hr_def)

lemma append_B_plain:
  assumes e: "extractCompleteBlocks_B (buffer p @ chunk) = Inr (spans, rest)"
  shows "fst (append_B plain_converter clock chunk p) = None"
    "map content (processedBlocks (snd (append_B plain_converter clock chunk p)))
       = map content (processedBlocks p) @ spans"
    "buffer (snd (append_B plain_converter clock chunk p)) = rest"
proof -
  obtain bs where bs: "parseBlocks plain_converter clock spans = Inr bs" "map content bs = spans"
    using plain_parse by blast
  show "fst (append_B plain_converter clock chunk p) = None"
    using e bs by (simp add: append_B_def append_begin_B_def)
  show "map content (processedBlocks (snd (append_B plain_converter clock chunk p)))
       = map content (processedBlocks p) @ spans"
    using e bs by (simp add: append_B_def append_begin_B_def)
  show "buffer (snd (append_B plain_converter clock chunk p)) = rest"
    using e bs by (simp add: append_B_def append_begin_B_def)
qed

lemma two_chunks_run_B:
  "fst (calls_B plain_converter still_clocks 0
          [Append (js ''a\<newline>''), Append (js ''\<newline>b''), Finish] (new_processor_B 10 16)) = None"
  "map content (processedBlocks (snd (calls_B plain_converter still_clocks 0
          [Append (js ''a\<newline>''), Append (js ''\<newline>b''), Finish] (new_processor_B 10 16))))
     = [js ''a'', js ''b'']"
  "buffer (snd (calls_B plain_converter still_clocks 0
          [Append (js ''a\<newline>''), Append (js ''\<newline>b''), Finish] (new_processor_B 10 16))) = []"
proof -
  define p0 where "p0 = new_processor_B 10 16"
  define p1 where "p1 = snd (append_B plain_converter (still_clocks 0) (js ''a\<newline>'') p0)"
  define p2 where "p2 = snd (append_B plain_converter (still_clocks 1) (js ''\<newline>b'') p1)"
  have e1: "extractCompleteBlocks_B (buffer p0 @ js ''a\<newline>'') = Inr ([js ''a''], [])"
    using extract_B_a_newline by (simp add: p0_def)
  note a1 = append_B_plain[OF e1, of "still_clocks 0", folded p1_def]
  have e2: "extractCompleteBlocks_B (buffer p1 @ js ''\<newline>b'') = Inr ([js ''b''], [])"
    using extract_B_newline_b by (simp add: a1(3))
  note a2 = append_B_plain[OF e2, of "still_clocks 1", folded p2_def]
  have c1: "append_B plain_converter (still_clocks 0) (js ''a\<newline>'') p0 = (None, p1)"
    using a1(1) unfolding p1_def by (metis prod.collapse)
  have c2: "append_B plain_converter (still_clocks 1) (js ''\<newline>b'') p1 = (None, p2)"
    using a2(1) unfolding p2_def by (metis prod.collapse)
  have f: "finish plain_converter (still_clocks 2) p2 = (None, p2)"
    using a2(3) by (simp add: finish_def trim_def)
  have run: "calls_B plain_converter still_clocks 0
      [Append (js ''a\<newline>''), Append (js ''\<newline>b''), Finish] p0 = (None, p2)"
    using c1 c2 f by (simp add: call_B_def numeral_2_eq_2)
  show "fst (calls_B plain_converter still_clocks 0
          [Append (js ''a\<newline>''), Append (js ''\<newline>b''), Finish] (new_processor_B 10 16)) = None"
    "map content (processedBlocks (snd (calls_B plain_converter still_clocks 0
          [Append (js ''a\<newline>''), Append (js ''\<newline>b''), Finish] (new_processor_B 10 16))))
     = [js ''a'', js ''b'']"
    "buffer (snd (calls_B plain_converter still_clocks 0
          [Append (js ''a\<newline>''), Append (js ''\<newline>b''), Finish] (new_processor_B 10 16))) = []"
    unfolding p0_def[symmetric] run using a1(2) a2(2,3) by (simp_all add: p0_def)
qed

lemma one_sentence_run:
  "fst (calls_A plain_converter still_clocks 0 [Append (js ''Hi. Yo'')] (new_processor 10 16)) = None"
  "map content (processedBlocks (snd (calls_A plain_converter still_clocks 0
          [Append (js ''Hi. Yo'')] (new_processor 10 16)))) = [js ''Hi.'']"
  "buffer (snd (calls_A plain_converter still_clocks 0
          [Append (js ''Hi. Yo'')] (new_processor 10 16))) = js ''Yo''"
proof -
  define p1 where "p1 = snd (append_A plain_converter (still_clocks 0) (js ''Hi. Yo'')
     (new_processor 10 16))"
  have a: "append_A plain_converter (still_clocks 0) (js ''Hi. Yo'') (new_processor 10 16)
      = (None, p1)"
    using append_A_plain(1)[of "still_clocks 0" "js ''Hi. Yo''" "new_processor 10 16"]
    unfolding p1_def by (metis prod.collapse)
  have p1: "map content (processedBlocks p1) = [js ''Hi.'']" "buffer p1 = js ''Yo''"
    unfolding p1_def append_A_plain by (simp_all add: extract_A_one_sentence)
  have run: "calls_A plain_converter still_clocks 0 [Append (js ''Hi. Yo'')] (new_processor 10 16)
      = (None, p1)"
    using a by (simp add: call_A_def)
  show "fst (calls_A plain_converter still_clocks 0 [Append (js ''Hi. Yo'')] (new_processor 10 16)) = None"
    "map content (processedBlocks (snd (calls_A plain_converter still_clocks 0
          [Append (js ''Hi. Yo'')] (new_processor 10 16)))) = [js ''Hi.'']"
    "buffer (snd (calls_A plain_converter still_clocks 0
          [Append (js ''Hi. Yo'')] (new_processor 10 16))) = js ''Yo''"
    unfolding run using p1 by simp_all
qed

text \<open>
  C2, as the code has it: extraction drops the white space between the spans (the blank
  line, the white space after a sentence end, the newline after a marker line or between
  two blocks), so characters are conserved between the spans only. For a producer that
  awaits each call before the next, at every point of a run of \<open>append\<close> and \<open>finish\<close>
  calls that resolve, in either variant, the appended text is: white space, the first
  span, white space, the second span and so on, then white space and the buffer; the
  spans are the texts of the processed blocks, verbatim. One extraction step splits the
  buffer in the same way into its spans and the new buffer. In the first variant this
  holds as long as no \<open>append\<close> finds two sentence ends in a buffer without blank line.
\<close>

theorem characters_conserved_between_spans:
  "(calls_A cv clock 0 cs (new_processor csz db) = (None, p)
      \<and> list_all (\<lambda>b. \<not> joins_sentences b) (buffers_A [] cs) \<longrightarrow>
      (\<exists>pre. appended cs = pre @ buffer p \<and> layout (map content (processedBlocks p)) pre)
      \<and> length (sent p) + length (buffer p) \<le> length (appended cs))
   \<and> (calls_B cv clock 0 cs (new_processor_B csz db) = (None, q) \<longrightarrow>
      (\<exists>pre. appended cs = pre @ buffer q \<and> layout (map content (processedBlocks q)) pre)
      \<and> length (sent q) + length (buffer q) \<le> length (appended cs))
   \<and> (\<not> joins_sentences b \<longrightarrow>
      (\<exists>pre. b = pre @ snd (extractCompleteBlocks_A b)
         \<and> layout (fst (extractCompleteBlocks_A b)) pre))
   \<and> (extractCompleteBlocks_B b = Inr (spans, rest) \<longrightarrow>
      (\<exists>pre. b = pre @ rest \<and> layout spans pre))"
proof (intro conjI impI)
  assume a: "calls_A cv clock 0 cs (new_processor csz db) = (None, p)
      \<and> list_all (\<lambda>b. \<not> joins_sentences b) (buffers_A [] cs)"
  then have run: "calls_A cv clock 0 cs (new_processor csz db) = (None, p)"
    and nj: "list_all (\<lambda>b. \<not> joins_sentences b) (buffers_A (buffer (new_processor csz db)) cs)"
    by simp_all
  from calls_A_layout[OF run nj] obtain mid where
    m: "appended cs = mid @ buffer p" "layout (map content (processedBlocks p)) mid" by auto
  then show "\<exists>pre. appended cs = pre @ buffer p \<and> layout (map content (processedBlocks p)) pre"
    by blast
  from layout_length[OF m(2)] show "length (sent p) + length (buffer p) \<le> length (appended cs)"
    unfolding m(1) by (simp add: sent_def)
next
  assume run: "calls_B cv clock 0 cs (new_processor_B csz db) = (None, q)"
  from calls_B_layout[OF run] obtain mid where
    m: "appended cs = mid @ buffer q" "layout (map content (processedBlocks q)) mid" by auto
  then show "\<exists>pre. appended cs = pre @ buffer q \<and> layout (map content (processedBlocks q)) pre"
    by blast
  from layout_length[OF m(2)] show "length (sent q) + length (buffer q) \<le> length (appended cs)"
    unfolding m(1) by (simp add: sent_def)
next
  assume "\<not> joins_sentences b"
  with extractCompleteBlocks_A_layout[of b "fst (extractCompleteBlocks_A b)"
      "snd (extractCompleteBlocks_A b)"]
  show "\<exists>pre. b = pre @ snd (extractCompleteBlocks_A b)
      \<and> layout (fst (extractCompleteBlocks_A b)) pre" by simp
next
  assume "extractCompleteBlocks_B b = Inr (spans, rest)"
  then show "\<exists>pre. b = pre @ rest \<and> layout spans pre" by (rule extractCompleteBlocks_B_layout)
qed

theorem characters_conserved_witness:
  "calls_A plain_converter still_clocks 0 [Append (js ''Hi. Yo'')] (new_processor 10 16)
     = (None, snd (calls_A plain_converter still_clocks 0 [Append (js ''Hi. Yo'')]
          (new_processor 10 16)))
   \<and> list_all (\<lambda>b. \<not> joins_sentences b) (buffers_A [] [Append (js ''Hi. Yo'')])
   \<and> (\<exists>pre. appended [Append (js ''Hi. Yo'')]
          = pre @ buffer (snd (calls_A plain_converter still_clocks 0 [Append (js ''Hi. Yo'')]
              (new_processor 10 16)))
        \<and> layout (map content (processedBlocks (snd (calls_A plain_converter still_clocks 0
              [Append (js ''Hi. Yo'')] (new_processor 10 16))))) pre)
   \<and> map content (processedBlocks (snd (calls_A plain_converter still_clocks 0
          [Append (js ''Hi. Yo'')] (new_processor 10 16)))) = [js ''Hi.'']
   \<and> buffer (snd (calls_A plain_converter still_clocks 0 [Append (js ''Hi. Yo'')]
          (new_processor 10 16))) = js ''Yo''
   \<and> calls_B plain_converter still_clocks 0
        [Append (js ''a\<newline>''), Append (js ''\<newline>b''), Finish] (new_processor_B 10 16)
     = (None, snd (calls_B plain_converter still_clocks 0
          [Append (js ''a\<newline>''), Append (js ''\<newline>b''), Finish] (new_processor_B 10 16)))
   \<and> (\<exists>pre. appended [Append (js ''a\<newline>''), Append (js ''\<newline>b''), Finish]
          = pre @ buffer (snd (calls_B plain_converter still_clocks 0
              [Append (js ''a\<newline>''), Append (js ''\<newline>b''), Finish] (new_processor_B 10 16)))
        \<and> layout (map content (processedBlocks (snd (calls_B plain_converter still_clocks 0
              [Append (js ''a\<newline>''), Append (js ''\<newline>b''), Finish]
              (new_processor_B 10 16))))) pre)
   \<and> \<not> joins_sentences (js ''Hi. Yo'')
   \<and> (\<exists>pre. js ''Hi. Yo'' = pre @ snd (extractCompleteBlocks_A (js ''Hi. Yo''))
        \<and> layout (fst (extractCompleteBlocks_A (js ''Hi. Yo''))) pre)
   \<and> extractCompleteBlocks_B (js ''a'') = Inr ([js ''a''], [])
   \<and> (\<exists>pre. js ''a'' = pre @ [] \<and> layout [js ''a''] pre)"
proof -
  define P where "P = snd (calls_A plain_converter still_clocks 0 [Append (js ''Hi. Yo'')]
      (new_processor 10 16))"
  define Q where "Q = snd (calls_B plain_converter still_clocks 0
      [Append (js ''a\<newline>''), Append (js ''\<newline>b''), Finish] (new_processor_B 10 16))"
  have rA: "calls_A plain_converter still_clocks 0 [Append (js ''Hi. Yo'')] (new_processor 10 16)
      = (None, P)"
    unfolding P_def using one_sentence_run(1) by (simp add: prod_eq_iff)
  have rB: "calls_B plain_converter still_clocks 0
      [Append (js ''a\<newline>''), Append (js ''\<newline>b''), Finish] (new_processor_B 10 16) = (None, Q)"
    unfolding Q_def using two_chunks_run_B(1) by (simp add: prod_eq_iff)
  have nj: "list_all (\<lambda>b. \<not> joins_sentences b) (buffers_A [] [Append (js ''Hi. Yo'')])"
    using one_sentence_not_joined by simp
  note thA = characters_conserved_between_spans[where cv = plain_converter and clock = still_clocks
      and cs = "[Append (js ''Hi. Yo'')]" and csz = 10 and db = 16 and p = P
      and b = "js ''Hi. Yo''" and spans = "[js ''a'']" and rest = "[]"]
  note thB = characters_conserved_between_spans[where cv = plain_converter and clock = still_clocks
      and cs = "[Append (js ''a\<newline>''), Append (js ''\<newline>b''), Finish]" and csz = 10 and db = 16
      and q = Q and b = "js ''a''" and spans = "[js ''a'']" and rest = "[]"]
  from thA[THEN conjunct1, THEN mp, OF conjI[OF rA nj]]
  have 1: "\<exists>pre. appended [Append (js ''Hi. Yo'')] = pre @ buffer P
      \<and> layout (map content (processedBlocks P)) pre" by (rule conjunct1)
  from thB[THEN conjunct2, THEN conjunct1, THEN mp, OF rB]
  have 2: "\<exists>pre. appended [Append (js ''a\<newline>''), Append (js ''\<newline>b''), Finish] = pre @ buffer Q
      \<and> layout (map content (processedBlocks Q)) pre" by (rule conjunct1)
  from thA[THEN conjunct2, THEN conjunct2, THEN conjunct1, THEN mp, OF one_sentence_not_joined]
  have 3: "\<exists>pre. js ''Hi. Yo'' = pre @ snd (extractCompleteBlocks_A (js ''Hi. Yo''))
        \<and> layout (fst (extractCompleteBlocks_A (js ''Hi. Yo''))) pre" .
  from thB[THEN conjunct2, THEN conjunct2, THEN conjunct2, THEN mp, OF extract_B_a]
  have 4: "\<exists>pre. js ''a'' = pre @ [] \<and> layout [js ''a''] pre" .
  have 5: "map content (processedBlocks P) = [js ''Hi.'']" "buffer P = js ''Yo''"
    unfolding P_def by (rule one_sentence_run(2), rule one_sentence_run(3))
  show ?thesis
    unfolding P_def[symmetric] Q_def[symmetric]
    using rA nj 1 5 rB 2 one_sentence_not_joined 3 extract_B_a 4 by blast
qed



subsection \<open>Fenced code blocks\<close>

lemma js_fence [simp]: "js ''```'' = fence"
  by (simp add: js_def fence_def)

lemma fence_facts [simp]:
  "fence \<noteq> []" "list_all (\<lambda>c. \<not> is_space c) fence" "10 \<notin> set fence" "length fence = 3"
  "set fence = {96}"
  by (simp_all add: fence_def is_space_def)

lemma startsWith_prefix: "startsWith s p \<longleftrightarrow> prefix p s"
  by (auto simp: startsWith_iff prefix_def)

lemma indexOf_lower: "- 1 \<le> indexOf s p"
  by (induction s) (auto simp: Let_def)

lemma indexOf_sublist: "sublist p s \<Longrightarrow> indexOf s p \<noteq> - 1"
proof (induction s)
  case Nil
  then show ?case by simp
next
  case (Cons c s)
  show ?case
  proof (cases "startsWith (c # s) p")
    case True
    then show ?thesis by simp
  next
    case False
    with Cons.prems have "sublist p s"
      by (simp add: sublist_Cons_right startsWith_prefix)
    from Cons.IH[OF this] indexOf_lower[of s p] False show ?thesis
      by (simp add: Let_def)
  qed
qed

lemma includes_str_sublist: "includes_str s p \<longleftrightarrow> sublist p s"
proof
  assume "includes_str s p"
  then obtain n t where "drop n s = p @ t"
    using indexOf_found[of s p] by (auto simp: includes_str_def)
  then have "take n s @ p @ t = s" using append_take_drop_id[of n s] by simp
  then have "s = take n s @ p @ t" by (rule sym)
  then show "sublist p s" unfolding sublist_def by (intro exI[of _ "take n s"] exI[of _ t])
next
  assume "sublist p s"
  then show "includes_str s p" by (simp add: includes_str_def indexOf_sublist)
qed









lemma not_space_backtick [simp]: "\<not> is_space 96"
  by (simp add: is_space_def)





































text \<open>
  The second variant when the first chunk is cut inside the opening fence: its two
  backticks are a complete block for \<open>isBlockComplete\<close>, and are sent.
\<close>

lemma second_variant_splits_opening_fence:
  "extractCompleteBlocks_B (js ''``'') = Inr ([js ''``''], [])"
  by (simp add: extractCompleteBlocks_B_def isBlockComplete_def splitIntoBlocks_def split_init_def
      split_line_def push_current_def string_eval is_table_line_def is_hr_def fence_def
      del: js_fence)


end
